theory Spec2Isabelle
  imports Main "HOL-Library.AList"
begin

section \<open>Data model\<close>

text \<open>
  The merge algorithm reads only the start position of a code location. A column can be
  the \<open>null\<close> sentinel, which is kept apart from column \<open>0\<close>. Execution
  counts are hit counters, modelled as natural numbers.
\<close>

record Position =
  line :: nat
  column :: "nat option"

record Location =
  start :: Position

record LocEntry =
  loc :: Location

type_synonym FnEntry = LocEntry
type_synonym BranchEntry = LocEntry

text \<open>
  The maps that the code iterates (\<open>Object.entries\<close>, \<open>Object.values\<close>,
  \<open>Object.keys\<close>) are association lists in iteration order; the count objects
  \<open>s\<close>, \<open>f\<close> and \<open>b\<close> are only read and written by key and are partial maps.
  They are the fields \<open>cov_s\<close>, \<open>cov_f\<close> and \<open>cov_b\<close>.
\<close>

record FileCoverageData =
  path :: string
  statementMap :: "(string \<times> Location) list"
  cov_s :: "string \<rightharpoonup> nat"
  fnMap :: "(string \<times> FnEntry) list"
  cov_f :: "string \<rightharpoonup> nat"
  branchMap :: "(string \<times> BranchEntry) list"
  cov_b :: "string \<rightharpoonup> nat list"

type_synonym CoverageMapData = "(string \<times> FileCoverageData) list"

record CoverageLookups =
  stmts :: "string \<rightharpoonup> nat"
  stmtsByLine :: "nat \<rightharpoonup> nat"
  fns :: "string \<rightharpoonup> nat"
  fnsByLine :: "nat \<rightharpoonup> nat"
  branches :: "string \<rightharpoonup> nat list"
  branchesByLine :: "nat \<rightharpoonup> nat list"

datatype error = NoCoverages | TypeError

section \<open>Location keys\<close>

definition digitChar :: "nat \<Rightarrow> char" where
  "digitChar d = char_of (48 + d)"

fun showNat :: "nat \<Rightarrow> string" where
  "showNat n = (if n < 10 then [digitChar n] else showNat (n div 10) @ [digitChar (n mod 10)])"

declare showNat.simps [simp del]

definition showColumn :: "nat option \<Rightarrow> string" where
  "showColumn c = (case c of None \<Rightarrow> ''null'' | Some n \<Rightarrow> showNat n)"

definition locationKey :: "Location \<Rightarrow> string" where
  "locationKey l = showNat (line (start l)) @ '':'' @ showColumn (column (start l))"

definition lineKey :: "Location \<Rightarrow> nat" where
  "lineKey l = line (start l)"

section \<open>Source selection\<close>

definition getTotalItems :: "FileCoverageData \<Rightarrow> nat" where
  "getTotalItems c =
     length (map fst (statementMap c)) + length (map fst (branchMap c)) + length (map fst (fnMap c))"

definition hasDirective :: "FileCoverageData \<Rightarrow> bool" where
  "hasDirective c =
     list_ex (\<lambda>typedLoc. line (start typedLoc) = 1 \<and>
                (column (start typedLoc) = Some 0 \<or> column (start typedLoc) = None))
       (map snd (statementMap c))"

text \<open>\<open>Array.prototype.reduce\<close> without an initial value: the first element starts the
  accumulator, and an empty array raises.\<close>

fun reduce :: "('a \<Rightarrow> 'a \<Rightarrow> 'a) \<Rightarrow> 'a list \<Rightarrow> 'a option" where
  "reduce g [] = None"
| "reduce g (x # xs) = Some (foldl g x xs)"

definition preferLater :: "FileCoverageData \<times> nat \<Rightarrow> FileCoverageData \<times> nat \<Rightarrow> FileCoverageData \<times> nat" where
  "preferLater best current = (if snd current > snd best then current else best)"

definition preferFewer :: "FileCoverageData \<times> nat \<Rightarrow> FileCoverageData \<times> nat \<Rightarrow> FileCoverageData \<times> nat" where
  "preferFewer best current =
     (if getTotalItems (fst current) < getTotalItems (fst best) then current else best)"

definition withIndex :: "'a list \<Rightarrow> ('a \<times> nat) list" where
  "withIndex xs = zip xs [0..<length xs]"

text \<open>The result is \<open>None\<close> where the source yields \<open>undefined\<close> (\<open>coverages[0]\<close> of an
  empty array).\<close>

definition selectBestSource :: "FileCoverageData list \<Rightarrow> FileCoverageData option" where
  "selectBestSource coverages =
     (let nonEmptyWithIndex = filter (\<lambda>(c, idx). getTotalItems c > 0) (withIndex coverages)
      in if length nonEmptyWithIndex = 0 then (case coverages of [] \<Rightarrow> None | c # _ \<Rightarrow> Some c)
         else if length nonEmptyWithIndex = 1 then Some (fst (nonEmptyWithIndex ! 0))
         else
           let withDirective = filter (\<lambda>(c, idx). hasDirective c) nonEmptyWithIndex;
               withoutDirective = filter (\<lambda>(c, idx). \<not> hasDirective c) nonEmptyWithIndex
           in if length withoutDirective > 0
              then map_option fst (reduce preferLater withoutDirective)
              else map_option fst (reduce preferFewer nonEmptyWithIndex))"

section \<open>Lookup index\<close>

text \<open>\<open>x || 0\<close> and \<open>x || []\<close> on a value that may be \<open>undefined\<close>.\<close>

definition orZero :: "nat option \<Rightarrow> nat" where
  "orZero x = (case x of None \<Rightarrow> 0 | Some c \<Rightarrow> c)"

definition orEmpty :: "nat list option \<Rightarrow> nat list" where
  "orEmpty x = (case x of None \<Rightarrow> [] | Some cs \<Rightarrow> cs)"

text \<open>The body shared by the statement loop and the function loop of \<open>buildLookups\<close>.\<close>

definition addCount ::
  "(string \<rightharpoonup> nat) \<times> (nat \<rightharpoonup> nat) \<Rightarrow> Location \<Rightarrow> nat \<Rightarrow> (string \<rightharpoonup> nat) \<times> (nat \<rightharpoonup> nat)" where
  "addCount maps l count =
     (case maps of (exact, byLine) \<Rightarrow>
        if count > 0
        then (exact(locationKey l \<mapsto> count),
              byLine(lineKey l \<mapsto> max (orZero (byLine (lineKey l))) count))
        else (exact, byLine))"

definition addBranch ::
  "(string \<rightharpoonup> nat list) \<times> (nat \<rightharpoonup> nat list) \<Rightarrow> Location \<Rightarrow> nat list
     \<Rightarrow> (string \<rightharpoonup> nat list) \<times> (nat \<rightharpoonup> nat list)" where
  "addBranch maps l counts =
     (case maps of (exact, byLine) \<Rightarrow>
        if list_ex (\<lambda>c. c > 0) counts
        then (exact(locationKey l \<mapsto> counts),
              if byLine (lineKey l) = None then byLine(lineKey l \<mapsto> counts) else byLine)
        else (exact, byLine))"

definition stmtLookups :: "FileCoverageData \<Rightarrow> (string \<rightharpoonup> nat) \<times> (nat \<rightharpoonup> nat)" where
  "stmtLookups d =
     foldl (\<lambda>maps (key, l). addCount maps l (orZero (cov_s d key)))
       (Map.empty, Map.empty) (statementMap d)"

definition fnLookups :: "FileCoverageData \<Rightarrow> (string \<rightharpoonup> nat) \<times> (nat \<rightharpoonup> nat)" where
  "fnLookups d =
     foldl (\<lambda>maps (key, fn). addCount maps (loc fn) (orZero (cov_f d key)))
       (Map.empty, Map.empty) (fnMap d)"

definition branchLookups ::
  "FileCoverageData \<Rightarrow> (string \<rightharpoonup> nat list) \<times> (nat \<rightharpoonup> nat list)" where
  "branchLookups d =
     foldl (\<lambda>maps (key, branch). addBranch maps (loc branch) (orEmpty (cov_b d key)))
       (Map.empty, Map.empty) (branchMap d)"

definition buildLookups :: "FileCoverageData \<Rightarrow> CoverageLookups" where
  "buildLookups d =
     \<lparr>stmts = fst (stmtLookups d), stmtsByLine = snd (stmtLookups d),
      fns = fst (fnLookups d), fnsByLine = snd (fnLookups d),
      branches = fst (branchLookups d), branchesByLine = snd (branchLookups d)\<rparr>"

section \<open>File merge\<close>

text \<open>\<open>exact.get(locKey) ?? byLine.get(line)\<close>: the line map is read only when the exact
  map has no entry.\<close>

definition orElse :: "'a option \<Rightarrow> 'a option \<Rightarrow> 'a option" where
  "orElse x y = (case x of Some v \<Rightarrow> Some v | None \<Rightarrow> y)"

definition stmtCount :: "CoverageLookups \<Rightarrow> Location \<Rightarrow> nat option" where
  "stmtCount lookup l = orElse (stmts lookup (locationKey l)) (stmtsByLine lookup (lineKey l))"

definition fnCount :: "CoverageLookups \<Rightarrow> Location \<Rightarrow> nat option" where
  "fnCount lookup l = orElse (fns lookup (locationKey l)) (fnsByLine lookup (lineKey l))"

definition branchCounts :: "CoverageLookups \<Rightarrow> Location \<Rightarrow> nat list option" where
  "branchCounts lookup l =
     orElse (branches lookup (locationKey l)) (branchesByLine lookup (lineKey l))"

definition raiseMax :: "nat \<Rightarrow> nat option \<Rightarrow> nat" where
  "raiseMax maxCount count =
     (case count of Some c \<Rightarrow> if c > maxCount then c else maxCount | None \<Rightarrow> maxCount)"

definition mergeStatement ::
  "CoverageLookups list \<Rightarrow> (string \<rightharpoonup> nat) \<Rightarrow> string \<times> Location \<Rightarrow> (string \<rightharpoonup> nat)" where
  "mergeStatement allLookups ms entry =
     (case entry of (key, l) \<Rightarrow>
        ms(key \<mapsto> foldl (\<lambda>maxCount lookup. raiseMax maxCount (stmtCount lookup l))
                     (orZero (ms key)) allLookups))"

definition mergeFunction ::
  "CoverageLookups list \<Rightarrow> (string \<rightharpoonup> nat) \<Rightarrow> string \<times> FnEntry \<Rightarrow> (string \<rightharpoonup> nat)" where
  "mergeFunction allLookups mf entry =
     (case entry of (key, fn) \<Rightarrow>
        mf(key \<mapsto> foldl (\<lambda>maxCount lookup. raiseMax maxCount (fnCount lookup (loc fn)))
                     (orZero (mf key)) allLookups))"

text \<open>\<open>baseCounts.map((c, i) => Math.max(c, counts[i] || 0))\<close>: the result has the length
  of \<open>baseCounts\<close>, and an index past the end of \<open>counts\<close> reads as 0.\<close>

definition maxWith :: "nat list \<Rightarrow> nat list \<Rightarrow> nat list" where
  "maxWith baseCounts counts =
     map (\<lambda>(c, i). max c (if i < length counts then counts ! i else 0))
       (zip baseCounts [0..<length baseCounts])"

text \<open>\<open>baseCounts\<close> is read once, before the loop over the lookups, and every
  contributing lookup assigns \<open>merged.b[key]\<close> from it.\<close>

definition mergeBranch ::
  "CoverageLookups list \<Rightarrow> (string \<rightharpoonup> nat list) \<Rightarrow> string \<times> BranchEntry \<Rightarrow> (string \<rightharpoonup> nat list)" where
  "mergeBranch allLookups mb entry =
     (case entry of (key, branch) \<Rightarrow>
        let baseCounts = orEmpty (mb key)
        in foldl (\<lambda>mb' lookup.
                    case branchCounts lookup (loc branch) of
                      Some counts \<Rightarrow> mb'(key \<mapsto> maxWith baseCounts counts)
                    | None \<Rightarrow> mb')
             mb allLookups)"

definition mergeFileCoverages :: "FileCoverageData list \<Rightarrow> error + FileCoverageData" where
  "mergeFileCoverages coverages =
     (if length coverages = 0 then Inl NoCoverages
      else if length coverages = 1 then Inr (coverages ! 0)
      else
        case selectBestSource coverages of
          None \<Rightarrow> Inl TypeError
        | Some bestSource \<Rightarrow>
            let allLookups = map buildLookups coverages
            in Inr \<lparr>path = path (coverages ! 0),
                    statementMap = statementMap bestSource,
                    cov_s = foldl (mergeStatement allLookups) (cov_s bestSource) (statementMap bestSource),
                    fnMap = fnMap bestSource,
                    cov_f = foldl (mergeFunction allLookups) (cov_f bestSource) (fnMap bestSource),
                    branchMap = branchMap bestSource,
                    cov_b = foldl (mergeBranch allLookups) (cov_b bestSource) (branchMap bestSource)\<rparr>)"

section \<open>Map merge\<close>

definition hasKey :: "CoverageMapData \<Rightarrow> string \<Rightarrow> bool" where
  "hasKey m file = (map_of m file \<noteq> None)"

text \<open>A \<open>Set\<close> keeps its members in insertion order, each once.\<close>

definition setAdd :: "string list \<Rightarrow> string \<Rightarrow> string list" where
  "setAdd allFiles file = (if file \<in> set allFiles then allFiles else allFiles @ [file])"

definition collectFiles :: "CoverageMapData list \<Rightarrow> string list" where
  "collectFiles coverageMaps = foldl (\<lambda>allFiles m. foldl setAdd allFiles (map fst m)) [] coverageMaps"

definition fileCoveragesOf :: "CoverageMapData list \<Rightarrow> string \<Rightarrow> FileCoverageData list" where
  "fileCoveragesOf coverageMaps file =
     map (\<lambda>m. the (map_of m file)) (filter (\<lambda>m. hasKey m file) coverageMaps)"

fun mergeFiles ::
  "CoverageMapData list \<Rightarrow> CoverageMapData \<Rightarrow> string list \<Rightarrow> error + CoverageMapData" where
  "mergeFiles coverageMaps merged [] = Inr merged"
| "mergeFiles coverageMaps merged (file # files) =
     (let fileCoverages = fileCoveragesOf coverageMaps file
      in if length fileCoverages = 1
         then mergeFiles coverageMaps (AList.update file (fileCoverages ! 0) merged) files
         else case mergeFileCoverages fileCoverages of
                Inl e \<Rightarrow> Inl e
              | Inr r \<Rightarrow> mergeFiles coverageMaps (AList.update file r merged) files)"

definition smartMergeCoverage :: "CoverageMapData list \<Rightarrow> error + CoverageMapData" where
  "smartMergeCoverage coverageMaps =
     (if length coverageMaps = 0 then Inr []
      else if length coverageMaps = 1 then Inr (coverageMaps ! 0)
      else mergeFiles coverageMaps [] (collectFiles coverageMaps))"

section \<open>Normalization\<close>

text \<open>
  The file system is a collaborator: for a path, the file is missing (\<open>existsSync\<close> is
  false), or reading it raises, or it has a text. Source text is a JavaScript string, a
  list of UTF-16 code units; \<open>lit\<close> gives the code units of an ASCII literal.
\<close>

type_synonym jsString = "nat list"

definition lit :: "string \<Rightarrow> jsString" where
  "lit str = map of_char str"

datatype fileRead = Missing | Unreadable | Text jsString

type_synonym fileSystem = "string \<Rightarrow> fileRead"

fun splitLines :: "jsString \<Rightarrow> jsString list" where
  "splitLines [] = [[]]"
| "splitLines (c # cs) =
     (if c = 0x0A then [] # splitLines cs
      else case splitLines cs of [] \<Rightarrow> [[c]] | l # ls \<Rightarrow> (c # l) # ls)"

text \<open>\<open>String.prototype.trim\<close> strips the white space and line terminator code units
  of ECMAScript from both ends.\<close>

definition isSpace :: "nat \<Rightarrow> bool" where
  "isSpace c =
     (c \<in> set [0x09, 0x0A, 0x0B, 0x0C, 0x0D, 0x20, 0xA0, 0x1680,
                 0x2000, 0x2001, 0x2002, 0x2003, 0x2004, 0x2005, 0x2006, 0x2007, 0x2008, 0x2009,
                 0x200A, 0x2028, 0x2029, 0x202F, 0x205F, 0x3000, 0xFEFF])"

definition trim :: "jsString \<Rightarrow> jsString" where
  "trim str = rev (dropWhile isSpace (rev (dropWhile isSpace str)))"

definition startsWith :: "jsString \<Rightarrow> jsString \<Rightarrow> bool" where
  "startsWith str pre = (take (length pre) str = pre)"

definition quoted :: "nat \<Rightarrow> string \<Rightarrow> jsString" where
  "quoted q str = q # lit str @ [q]"

definition isDirective :: "jsString \<Rightarrow> bool" where
  "isDirective ln =
     (ln = quoted 0x27 ''use server'' \<or>
      ln = quoted 0x22 ''use server'' \<or>
      ln = quoted 0x27 ''use server'' @ lit '';'' \<or>
      ln = quoted 0x22 ''use server'' @ lit '';'' \<or>
      ln = quoted 0x27 ''use client'' \<or>
      ln = quoted 0x22 ''use client'' \<or>
      ln = quoted 0x27 ''use client'' @ lit '';'' \<or>
      ln = quoted 0x22 ''use client'' @ lit '';'')"

text \<open>\<open>lines[lineNum - 1]?.trim() || ''\<close>: an index outside the array, also \<open>-1\<close> for
  line 0, reads as the empty string.\<close>

definition lineContent :: "jsString list \<Rightarrow> nat \<Rightarrow> jsString" where
  "lineContent lines lineNum =
     (if 1 \<le> lineNum \<and> lineNum - 1 < length lines then trim (lines ! (lineNum - 1)) else [])"

datatype removal = Import | Directive

definition classify :: "jsString list \<Rightarrow> Location \<Rightarrow> removal option" where
  "classify lines stmt =
     (let content = lineContent lines (line (start stmt))
      in if startsWith content (lit ''import '') \<or> startsWith content (lit ''import{'') then Some Import
         else if isDirective content then Some Directive
         else None)"

record NormalizeFileResult =
  importsRemoved :: nat
  directivesRemoved :: nat

record NormalizeResult = NormalizeFileResult +
  coverageMap :: CoverageMapData

definition findKeysToRemove :: "jsString list \<Rightarrow> (string \<times> Location) list \<Rightarrow> (string \<times> removal) list" where
  "findKeysToRemove lines entries =
     concat (map (\<lambda>(key, stmt). case classify lines stmt of
                                    None \<Rightarrow> [] | Some type \<Rightarrow> [(key, type)]) entries)"

definition removeKey ::
  "FileCoverageData \<times> NormalizeFileResult \<Rightarrow> string \<times> removal
     \<Rightarrow> FileCoverageData \<times> NormalizeFileResult" where
  "removeKey st entry =
     (case (st, entry) of ((fileData, res), (key, type)) \<Rightarrow>
        (fileData\<lparr>statementMap := AList.delete key (statementMap fileData),
                  cov_s := (cov_s fileData)(key := None)\<rparr>,
         if type = Import then res\<lparr>importsRemoved := importsRemoved res + 1\<rparr>
         else res\<lparr>directivesRemoved := directivesRemoved res + 1\<rparr>))"

definition noRemovals :: NormalizeFileResult where
  "noRemovals = \<lparr>importsRemoved = 0, directivesRemoved = 0\<rparr>"

definition normalizeFileCoverage ::
  "fileSystem \<Rightarrow> string \<Rightarrow> FileCoverageData \<Rightarrow> FileCoverageData \<times> NormalizeFileResult" where
  "normalizeFileCoverage fs filePath fileData =
     (case fs filePath of
        Unreadable \<Rightarrow> (fileData, noRemovals)
      | found \<Rightarrow>
          let lines = (case found of Text src \<Rightarrow> splitLines src | _ \<Rightarrow> [])
          in if length lines = 0 then (fileData, noRemovals)
             else foldl removeKey (fileData, noRemovals)
                    (findKeysToRemove lines (statementMap fileData)))"

text \<open>The records of the map are changed in place; the result carries the same map.\<close>

definition normalizeEntry ::
  "fileSystem \<Rightarrow> NormalizeResult \<Rightarrow> string \<times> FileCoverageData \<Rightarrow> NormalizeResult" where
  "normalizeEntry fs acc entry =
     (case entry of (filePath, fileData) \<Rightarrow>
        case normalizeFileCoverage fs filePath fileData of (fileData', res) \<Rightarrow>
          \<lparr>importsRemoved = importsRemoved acc + importsRemoved res,
           directivesRemoved = directivesRemoved acc + directivesRemoved res,
           coverageMap = coverageMap acc @ [(filePath, fileData')]\<rparr>)"

definition normalizeCoverage :: "fileSystem \<Rightarrow> CoverageMapData \<Rightarrow> NormalizeResult" where
  "normalizeCoverage fs cm =
     foldl (normalizeEntry fs) \<lparr>importsRemoved = 0, directivesRemoved = 0, coverageMap = []\<rparr> cm"

section \<open>Example records\<close>

text \<open>Records of the shapes used by the test suite, for closed instances of the theorems.\<close>

definition mkLoc :: "nat \<Rightarrow> nat option \<Rightarrow> Location" where
  "mkLoc l c = \<lparr>start = \<lparr>line = l, column = c\<rparr>\<rparr>"

definition stmtsOnly :: "(string \<times> Location) list \<Rightarrow> (string \<rightharpoonup> nat) \<Rightarrow> FileCoverageData" where
  "stmtsOnly sm cnt =
     \<lparr>path = ''/path/to/file.ts'', statementMap = sm, cov_s = cnt,
      fnMap = [], cov_f = Map.empty, branchMap = [], cov_b = Map.empty\<rparr>"

definition unitDirective :: FileCoverageData where
  "unitDirective =
     stmtsOnly [(''0'', mkLoc 1 (Some 0)), (''1'', mkLoc 2 (Some 0))] [''0'' \<mapsto> 1, ''1'' \<mapsto> 1]"

definition componentPlain :: FileCoverageData where
  "componentPlain = stmtsOnly [(''0'', mkLoc 2 (Some 0))] [''0'' \<mapsto> 1]"

definition unitHalf :: FileCoverageData where
  "unitHalf =
     stmtsOnly [(''0'', mkLoc 1 (Some 0)), (''1'', mkLoc 2 (Some 0))] [''0'' \<mapsto> 1, ''1'' \<mapsto> 0]"

definition componentHalf :: FileCoverageData where
  "componentHalf =
     stmtsOnly [(''0'', mkLoc 1 (Some 0)), (''1'', mkLoc 2 (Some 0))] [''0'' \<mapsto> 0, ''1'' \<mapsto> 1]"

definition sharedLine :: FileCoverageData where
  "sharedLine =
     \<lparr>path = ''/path/to/file.ts'',
      statementMap = [(''0'', mkLoc 3 (Some 0)), (''1'', mkLoc 3 (Some 8)), (''2'', mkLoc 3 (Some 20))],
      cov_s = [''0'' \<mapsto> 2, ''1'' \<mapsto> 7, ''2'' \<mapsto> 4],
      fnMap = [(''0'', \<lparr>loc = mkLoc 3 (Some 0)\<rparr>), (''1'', \<lparr>loc = mkLoc 3 (Some 8)\<rparr>)],
      cov_f = [''0'' \<mapsto> 6, ''1'' \<mapsto> 1],
      branchMap = [(''0'', \<lparr>loc = mkLoc 3 (Some 0)\<rparr>), (''1'', \<lparr>loc = mkLoc 3 (Some 4)\<rparr>),
                   (''2'', \<lparr>loc = mkLoc 3 (Some 9)\<rparr>)],
      cov_b = [''0'' \<mapsto> [0, 0], ''1'' \<mapsto> [0, 1], ''2'' \<mapsto> [5, 5]]\<rparr>"

definition mixedCov :: "nat \<Rightarrow> nat list \<Rightarrow> FileCoverageData" where
  "mixedCov fnHits branchHits =
     \<lparr>path = ''/path/to/file.ts'',
      statementMap = [(''0'', mkLoc 1 (Some 0))], cov_s = [''0'' \<mapsto> 1],
      fnMap = [(''0'', \<lparr>loc = mkLoc 1 (Some 0)\<rparr>)], cov_f = [''0'' \<mapsto> fnHits],
      branchMap = [(''0'', \<lparr>loc = mkLoc 1 (Some 0)\<rparr>)], cov_b = [''0'' \<mapsto> branchHits]\<rparr>"

definition branchOnly :: "nat list \<Rightarrow> FileCoverageData" where
  "branchOnly branchHits =
     \<lparr>path = ''/path/to/file.ts'', statementMap = [], cov_s = Map.empty,
      fnMap = [], cov_f = Map.empty,
      branchMap = [(''0'', \<lparr>loc = mkLoc 5 (Some 0)\<rparr>)], cov_b = [''0'' \<mapsto> branchHits]\<rparr>"

definition unitOnlyMap :: CoverageMapData where
  "unitOnlyMap = [(''/path/to/unit-only.ts'', unitDirective\<lparr>path := ''/path/to/unit-only.ts''\<rparr>)]"

definition componentOnlyMap :: CoverageMapData where
  "componentOnlyMap =
     [(''/path/to/component-only.ts'', componentPlain\<lparr>path := ''/path/to/component-only.ts''\<rparr>)]"

text \<open>The source of the test suite's \<open>use client\<close> case, here with a byte order mark,
  indentation, a no-break space and CR LF line ends.\<close>

definition clientSource :: jsString where
  "clientSource =
     0xFEFF # quoted 0x27 ''use client'' @ [0x0D, 0x0A] @
     [0x20, 0x20, 0x09] @ lit ''import React from '' @ quoted 0x27 ''react'' @ [0xA0, 0x0D, 0x0A] @
     lit ''const x = 1''"

definition clientCov :: FileCoverageData where
  "clientCov =
     stmtsOnly [(''0'', mkLoc 1 (Some 0)), (''1'', mkLoc 2 (Some 0)), (''2'', mkLoc 3 (Some 0))]
       [''0'' \<mapsto> 1, ''1'' \<mapsto> 1, ''2'' \<mapsto> 1]"

definition clientFs :: fileSystem where
  "clientFs p = (if p = ''/path/to/file.ts'' then Text clientSource else Missing)"

definition clientMap :: CoverageMapData where
  "clientMap =
     [(''/path/to/file.ts'', clientCov),
      (''/path/to/nonexistent.ts'', unitDirective\<lparr>path := ''/path/to/nonexistent.ts''\<rparr>)]"

definition sameLineSource :: FileCoverageData where
  "sameLineSource =
     stmtsOnly [(''0'', mkLoc 3 (Some 0)), (''1'', mkLoc 3 (Some 9))] [''0'' \<mapsto> 1, ''1'' \<mapsto> 9]"

definition driftBaseline :: FileCoverageData where
  "driftBaseline =
     stmtsOnly [(''0'', mkLoc 3 (Some 0)), (''1'', mkLoc 3 (Some 5))] [''0'' \<mapsto> 0, ''1'' \<mapsto> 0]"

definition twoImportsSource :: jsString where
  "twoImportsSource =
     quoted 0x27 ''use client'' @ [0x0A] @
     lit ''import React from '' @ quoted 0x27 ''react'' @ [0x0A] @
     lit ''import { useState } from '' @ quoted 0x27 ''react''"

definition twoImportsFs :: fileSystem where
  "twoImportsFs p = (if p = ''/path/to/file.ts'' then Text twoImportsSource else Missing)"

section \<open>Properties of the source selection\<close>

lemma in_withIndex: "(c, i) \<in> set (withIndex cs) \<longleftrightarrow> i < length cs \<and> c = cs ! i"
  by (auto simp: withIndex_def set_zip)

lemma withIndex_increasing: "sorted_wrt (\<lambda>a b. snd a < snd b) (withIndex cs)"
proof -
  have "sorted_wrt (<) (map snd (withIndex cs))"
    by (simp add: withIndex_def)
  then show ?thesis by (simp add: sorted_wrt_map)
qed

lemma foldl_preferLater:
  "foldl preferLater x xs \<in> set (x # xs) \<and> (\<forall>y\<in>set (x # xs). snd y \<le> snd (foldl preferLater x xs))"
proof (induction xs arbitrary: x)
  case Nil
  then show ?case by simp
next
  case (Cons a xs)
  from Cons.IH [of "preferLater x a"] show ?case
    by (auto simp: preferLater_def split: if_splits)
qed

lemma foldl_preferFewer:
  "\<exists>ys zs. x # xs = ys @ foldl preferFewer x xs # zs \<and>
     (\<forall>y\<in>set ys. getTotalItems (fst (foldl preferFewer x xs)) < getTotalItems (fst y)) \<and>
     (\<forall>z\<in>set zs. getTotalItems (fst (foldl preferFewer x xs)) \<le> getTotalItems (fst z))"
proof (induction xs rule: rev_induct)
  case Nil
  have "[x] = [] @ x # []" by simp
  then show ?case by (metis empty_iff foldl_Nil list.set(1))
next
  case (snoc a xs)
  let ?r = "foldl preferFewer x xs"
  from snoc obtain ys zs where split: "x # xs = ys @ ?r # zs"
    and before: "\<forall>y\<in>set ys. getTotalItems (fst ?r) < getTotalItems (fst y)"
    and after: "\<forall>z\<in>set zs. getTotalItems (fst ?r) \<le> getTotalItems (fst z)"
    by blast
  show ?case
  proof (cases "getTotalItems (fst a) < getTotalItems (fst ?r)")
    case True
    then have r: "foldl preferFewer x (xs @ [a]) = a" by (simp add: preferFewer_def)
    have "x # xs @ [a] = (x # xs) @ a # []" by simp
    moreover have "\<forall>y\<in>set (x # xs). getTotalItems (fst a) < getTotalItems (fst y)"
    proof
      fix y assume "y \<in> set (x # xs)"
      then have "y \<in> set ys \<or> y = ?r \<or> y \<in> set zs" using split by (metis Un_iff set_ConsD set_append)
      then show "getTotalItems (fst a) < getTotalItems (fst y)"
        using True before after by (auto intro: less_trans less_le_trans)
    qed
    ultimately show ?thesis unfolding r by (metis empty_iff list.set(1))
  next
    case False
    then have r: "foldl preferFewer x (xs @ [a]) = ?r" by (simp add: preferFewer_def)
    have "x # xs @ [a] = ys @ ?r # (zs @ [a])" using split by simp
    moreover have "\<forall>z\<in>set (zs @ [a]). getTotalItems (fst ?r) \<le> getTotalItems (fst z)"
      using after False by auto
    ultimately show ?thesis unfolding r using before by blast
  qed
qed


lemma selectBestSource_without:
  assumes "filter (\<lambda>(c, idx). \<not> hasDirective c)
             (filter (\<lambda>(c, idx). getTotalItems c > 0) (withIndex cs)) \<noteq> []"
  shows "\<exists>r\<in>set (filter (\<lambda>(c, idx). \<not> hasDirective c)
                    (filter (\<lambda>(c, idx). getTotalItems c > 0) (withIndex cs))).
           selectBestSource cs = Some (fst r) \<and>
           (\<forall>y\<in>set (filter (\<lambda>(c, idx). \<not> hasDirective c)
                    (filter (\<lambda>(c, idx). getTotalItems c > 0) (withIndex cs))). snd y \<le> snd r)"
proof -
  let ?S = "filter (\<lambda>(c, idx). getTotalItems c > 0) (withIndex cs)"
  let ?W = "filter (\<lambda>(c, idx). \<not> hasDirective c) ?S"
  from assms have S: "?S \<noteq> []" by (metis filter.simps(1))
  show ?thesis
  proof (cases "length ?S = 1")
    case True
    then obtain r where r: "?S = [r]" by (cases ?S) auto
    with assms have W: "?W = [r]" by (auto split: if_splits)
    have "selectBestSource cs = Some (fst r)"
      using r by (simp add: selectBestSource_def Let_def)
    then show ?thesis unfolding W by simp
  next
    case False
    from assms obtain x xs where W: "?W = x # xs" by (cases ?W) auto
    have "selectBestSource cs = Some (fst (foldl preferLater x xs))"
      using False S W by (simp add: selectBestSource_def Let_def)
    then show ?thesis unfolding W using foldl_preferLater [of x xs] by blast
  qed
qed

lemma selectBestSource_all_directive:
  assumes "filter (\<lambda>(c, idx). getTotalItems c > 0) (withIndex cs) \<noteq> []"
    and "filter (\<lambda>(c, idx). \<not> hasDirective c)
             (filter (\<lambda>(c, idx). getTotalItems c > 0) (withIndex cs)) = []"
  shows "\<exists>ys r zs. filter (\<lambda>(c, idx). getTotalItems c > 0) (withIndex cs) = ys @ r # zs \<and>
           selectBestSource cs = Some (fst r) \<and>
           (\<forall>y\<in>set ys. getTotalItems (fst r) < getTotalItems (fst y)) \<and>
           (\<forall>z\<in>set zs. getTotalItems (fst r) \<le> getTotalItems (fst z))"
proof -
  let ?S = "filter (\<lambda>(c, idx). getTotalItems c > 0) (withIndex cs)"
  show ?thesis
  proof (cases "length ?S = 1")
    case True
    then obtain r where r: "?S = [r]" by (cases ?S) auto
    have "selectBestSource cs = Some (fst r)"
      using r by (simp add: selectBestSource_def Let_def)
    moreover have "?S = [] @ r # []" using r by simp
    ultimately show ?thesis by (metis empty_iff list.set(1))
  next
    case False
    from assms(1) obtain x xs where S: "?S = x # xs" by (cases ?S) auto
    have "selectBestSource cs = Some (fst (foldl preferFewer x xs))"
      using False assms S by (simp add: selectBestSource_def Let_def)
    then show ?thesis unfolding S using foldl_preferFewer [of x xs] by metis
  qed
qed

lemma mem_nonEmpty:
  "(c, i) \<in> set (filter (\<lambda>(c, idx). getTotalItems c > 0) (withIndex cs)) \<longleftrightarrow>
     i < length cs \<and> c = cs ! i \<and> 0 < getTotalItems (cs ! i)"
  by (auto simp: in_withIndex)

lemma mem_withoutDirective:
  "(c, i) \<in> set (filter (\<lambda>(c, idx). \<not> hasDirective c)
                   (filter (\<lambda>(c, idx). getTotalItems c > 0) (withIndex cs))) \<longleftrightarrow>
     i < length cs \<and> c = cs ! i \<and> 0 < getTotalItems (cs ! i) \<and> \<not> hasDirective (cs ! i)"
  by (auto simp: in_withIndex)

lemma selectBestSource_lacking:
  assumes "\<exists>c\<in>set cs. 0 < getTotalItems c \<and> \<not> hasDirective c"
  shows "\<exists>i<length cs. selectBestSource cs = Some (cs ! i) \<and> 0 < getTotalItems (cs ! i) \<and>
           \<not> hasDirective (cs ! i) \<and>
           (\<forall>j<length cs. 0 < getTotalItems (cs ! j) \<and> \<not> hasDirective (cs ! j) \<longrightarrow> j \<le> i)"
proof -
  let ?W = "filter (\<lambda>(c, idx). \<not> hasDirective c)
              (filter (\<lambda>(c, idx). getTotalItems c > 0) (withIndex cs))"
  from assms obtain k where "k < length cs" "0 < getTotalItems (cs ! k)" "\<not> hasDirective (cs ! k)"
    by (auto simp: in_set_conv_nth)
  then have "(cs ! k, k) \<in> set ?W" unfolding mem_withoutDirective by simp
  then have "?W \<noteq> []" by (metis empty_iff list.set(1))
  from selectBestSource_without [OF this] obtain r where r: "r \<in> set ?W"
    and sel: "selectBestSource cs = Some (fst r)" and top: "\<forall>y\<in>set ?W. snd y \<le> snd r"
    by blast
  obtain c i where ci: "r = (c, i)" by (cases r)
  from r [unfolded ci mem_withoutDirective]
  have props: "i < length cs" "c = cs ! i" "0 < getTotalItems (cs ! i)" "\<not> hasDirective (cs ! i)"
    by simp_all
  have "\<forall>j<length cs. 0 < getTotalItems (cs ! j) \<and> \<not> hasDirective (cs ! j) \<longrightarrow> j \<le> i"
  proof (intro allI impI)
    fix j assume "j < length cs" "0 < getTotalItems (cs ! j) \<and> \<not> hasDirective (cs ! j)"
    then have "(cs ! j, j) \<in> set ?W" unfolding mem_withoutDirective by simp
    with top have "snd (cs ! j, j) \<le> snd r" by blast
    then show "j \<le> i" by (simp add: ci)
  qed
  with props sel ci show ?thesis by auto
qed

lemma selectBestSource_fewest:
  assumes "\<exists>c\<in>set cs. 0 < getTotalItems c"
    and "\<forall>c\<in>set cs. 0 < getTotalItems c \<longrightarrow> hasDirective c"
  shows "\<exists>i<length cs. selectBestSource cs = Some (cs ! i) \<and> 0 < getTotalItems (cs ! i) \<and>
           (\<forall>j<length cs. 0 < getTotalItems (cs ! j) \<longrightarrow>
              (if j < i then getTotalItems (cs ! i) < getTotalItems (cs ! j)
               else getTotalItems (cs ! i) \<le> getTotalItems (cs ! j)))"
proof -
  let ?S = "filter (\<lambda>(c, idx). getTotalItems c > 0) (withIndex cs)"
  let ?W = "filter (\<lambda>(c, idx). \<not> hasDirective c) ?S"
  from assms(1) obtain k where "k < length cs" "0 < getTotalItems (cs ! k)"
    by (auto simp: in_set_conv_nth)
  then have "(cs ! k, k) \<in> set ?S" unfolding mem_nonEmpty by simp
  then have S: "?S \<noteq> []" by (metis empty_iff list.set(1))
  have W: "?W = []"
  proof (rule ccontr)
    assume "?W \<noteq> []"
    then obtain y where "y \<in> set ?W" using hd_in_set by blast
    then obtain c i where "(c, i) \<in> set ?W" by (metis surj_pair)
    from this [unfolded mem_withoutDirective]
    have "i < length cs" "0 < getTotalItems (cs ! i)" "\<not> hasDirective (cs ! i)"
      by simp_all
    with assms(2) show False by (metis nth_mem)
  qed
  from selectBestSource_all_directive [OF S W] obtain ys r zs where
    split: "?S = ys @ r # zs" and sel: "selectBestSource cs = Some (fst r)"
    and before: "\<forall>y\<in>set ys. getTotalItems (fst r) < getTotalItems (fst y)"
    and after: "\<forall>z\<in>set zs. getTotalItems (fst r) \<le> getTotalItems (fst z)"
    by blast
  obtain c i where ci: "r = (c, i)" by (cases r)
  have "r \<in> set ?S" using split by simp
  from this [unfolded ci mem_nonEmpty]
  have props: "i < length cs" "c = cs ! i" "0 < getTotalItems (cs ! i)"
    by simp_all
  have "sorted_wrt (\<lambda>a b. snd a < snd b) ?S"
    by (rule sorted_wrt_filter) (rule withIndex_increasing)
  then have later: "\<forall>z\<in>set zs. i < snd z"
    unfolding split by (simp add: sorted_wrt_append ci)
  have "\<forall>j<length cs. 0 < getTotalItems (cs ! j) \<longrightarrow>
          (if j < i then getTotalItems (cs ! i) < getTotalItems (cs ! j)
           else getTotalItems (cs ! i) \<le> getTotalItems (cs ! j))"
  proof (intro allI impI)
    fix j assume "j < length cs" "0 < getTotalItems (cs ! j)"
    then have "(cs ! j, j) \<in> set ?S" unfolding mem_nonEmpty by simp
    then consider "(cs ! j, j) \<in> set ys" | "(cs ! j, j) = r" | "(cs ! j, j) \<in> set zs"
      unfolding split by auto
    then show "if j < i then getTotalItems (cs ! i) < getTotalItems (cs ! j)
           else getTotalItems (cs ! i) \<le> getTotalItems (cs ! j)"
    proof cases
      case 1
      with before have "getTotalItems (cs ! i) < getTotalItems (cs ! j)"
        using ci props by fastforce
      then show ?thesis by simp
    next
      case 2
      then show ?thesis using ci by simp
    next
      case 3
      with later have "i < j" by fastforce
      moreover from 3 after have "getTotalItems (cs ! i) \<le> getTotalItems (cs ! j)"
        using ci props by fastforce
      ultimately show ?thesis by simp
    qed
  qed
  with props sel ci show ?thesis by auto
qed


lemma example_items:
  "getTotalItems unitDirective = 2" "getTotalItems componentPlain = 1"
  "getTotalItems unitHalf = 2" "getTotalItems componentHalf = 2"
  by (simp_all add: getTotalItems_def unitDirective_def componentPlain_def unitHalf_def
        componentHalf_def stmtsOnly_def)

lemma example_directive:
  "hasDirective unitDirective" "\<not> hasDirective componentPlain"
  "hasDirective unitHalf" "hasDirective componentHalf"
  by (simp_all add: hasDirective_def unitDirective_def componentPlain_def unitHalf_def
        componentHalf_def stmtsOnly_def mkLoc_def)

text \<open>
  Claim C3. When some record has a nonzero total item count, \<open>selectBestSource\<close> returns
  one of the nonzero-item candidates: if any of them has no statement entry starting at line 1
  with column 0 or column null, it returns the one with the greatest original index among
  those lacking such an entry; if every one of them has such an entry, it returns one with
  the fewest total items.
\<close>

theorem selectBestSource_baseline:
  assumes "\<exists>c\<in>set coverages. 0 < getTotalItems c"
  shows "\<exists>i<length coverages.
           selectBestSource coverages = Some (coverages ! i) \<and> 0 < getTotalItems (coverages ! i) \<and>
           (if \<exists>c\<in>set coverages. 0 < getTotalItems c \<and> \<not> hasDirective c
            then \<not> hasDirective (coverages ! i) \<and>
                 (\<forall>j<length coverages.
                    0 < getTotalItems (coverages ! j) \<and> \<not> hasDirective (coverages ! j) \<longrightarrow> j \<le> i)
            else \<forall>j<length coverages.
                   0 < getTotalItems (coverages ! j) \<longrightarrow>
                     getTotalItems (coverages ! i) \<le> getTotalItems (coverages ! j))"
proof (cases "\<exists>c\<in>set coverages. 0 < getTotalItems c \<and> \<not> hasDirective c")
  case True
  from selectBestSource_lacking [OF True] show ?thesis
    unfolding if_P [OF True] by blast
next
  case False
  then have all: "\<forall>c\<in>set coverages. 0 < getTotalItems c \<longrightarrow> hasDirective c" by blast
  from selectBestSource_fewest [OF assms all] obtain i where i: "i < length coverages"
    "selectBestSource coverages = Some (coverages ! i)" "0 < getTotalItems (coverages ! i)"
    and least: "\<forall>j<length coverages. 0 < getTotalItems (coverages ! j) \<longrightarrow>
              (if j < i then getTotalItems (coverages ! i) < getTotalItems (coverages ! j)
               else getTotalItems (coverages ! i) \<le> getTotalItems (coverages ! j))"
    by blast
  have "\<forall>j<length coverages. 0 < getTotalItems (coverages ! j) \<longrightarrow>
          getTotalItems (coverages ! i) \<le> getTotalItems (coverages ! j)"
    using least by (meson less_imp_le)
  with i show ?thesis unfolding if_not_P [OF False] by blast
qed

theorem selectBestSource_baseline_witness:
  "(\<exists>c\<in>set [unitDirective, componentPlain]. 0 < getTotalItems c) \<and>
   selectBestSource [unitDirective, componentPlain] = Some componentPlain"
proof -
  let ?cs = "[unitDirective, componentPlain]"
  have h: "\<exists>c\<in>set ?cs. 0 < getTotalItems c"
    by (simp add: example_items)
  have lacking: "\<exists>c\<in>set ?cs. 0 < getTotalItems c \<and> \<not> hasDirective c"
    by (simp add: example_items example_directive)
  from selectBestSource_baseline [OF h, unfolded if_P [OF lacking]]
  obtain i where i: "i < length ?cs"
    and sel: "selectBestSource ?cs = Some (?cs ! i)"
    and no: "\<not> hasDirective (?cs ! i)"
    by blast
  from i have "i = 0 \<or> i = 1" by auto
  with no have "i = 1" using example_directive(1) by auto
  with sel h show ?thesis by simp
qed

text \<open>
  Claim C10. When every nonzero-item candidate has a line-1 pseudo-statement, the selected
  candidate has strictly fewer items than every earlier candidate and at most as many as
  every later one: among candidates that tie for the fewest items the earliest in the input
  order is selected. Among candidates lacking the pseudo-statement the direction is the
  opposite: no such candidate has a greater index than the selected one.
\<close>

theorem selectBestSource_tie_earliest:
  assumes "\<exists>c\<in>set coverages. 0 < getTotalItems c"
  shows "\<exists>i<length coverages.
           selectBestSource coverages = Some (coverages ! i) \<and>
           ((\<forall>c\<in>set coverages. 0 < getTotalItems c \<longrightarrow> hasDirective c) \<longrightarrow>
              0 < getTotalItems (coverages ! i) \<and>
              (\<forall>j<length coverages. 0 < getTotalItems (coverages ! j) \<longrightarrow>
                 (if j < i then getTotalItems (coverages ! i) < getTotalItems (coverages ! j)
                  else getTotalItems (coverages ! i) \<le> getTotalItems (coverages ! j)))) \<and>
           ((\<exists>c\<in>set coverages. 0 < getTotalItems c \<and> \<not> hasDirective c) \<longrightarrow>
              (\<forall>j<length coverages.
                 0 < getTotalItems (coverages ! j) \<and> \<not> hasDirective (coverages ! j) \<longrightarrow> j \<le> i))"
proof (cases "\<exists>c\<in>set coverages. 0 < getTotalItems c \<and> \<not> hasDirective c")
  case True
  then have "\<not> (\<forall>c\<in>set coverages. 0 < getTotalItems c \<longrightarrow> hasDirective c)" by blast
  with selectBestSource_lacking [OF True] show ?thesis by blast
next
  case False
  then have all: "\<forall>c\<in>set coverages. 0 < getTotalItems c \<longrightarrow> hasDirective c" by blast
  from selectBestSource_fewest [OF assms all] obtain i where "i < length coverages"
    "selectBestSource coverages = Some (coverages ! i)" "0 < getTotalItems (coverages ! i)"
    "\<forall>j<length coverages. 0 < getTotalItems (coverages ! j) \<longrightarrow>
        (if j < i then getTotalItems (coverages ! i) < getTotalItems (coverages ! j)
         else getTotalItems (coverages ! i) \<le> getTotalItems (coverages ! j))"
    by blast
  with False show ?thesis by blast
qed

theorem selectBestSource_tie_earliest_witness:
  "(\<exists>c\<in>set [unitHalf, componentHalf]. 0 < getTotalItems c) \<and>
   getTotalItems unitHalf = getTotalItems componentHalf \<and>
   selectBestSource [unitHalf, componentHalf] = Some unitHalf"
proof -
  let ?cs = "[unitHalf, componentHalf]"
  have h: "\<exists>c\<in>set ?cs. 0 < getTotalItems c"
    by (simp add: example_items)
  have all: "\<forall>c\<in>set ?cs. 0 < getTotalItems c \<longrightarrow> hasDirective c"
    by (simp add: example_directive)
  from selectBestSource_tie_earliest [OF h] all
  obtain i where i: "i < length ?cs"
    and sel: "selectBestSource ?cs = Some (?cs ! i)"
    and least: "\<forall>j<length ?cs. 0 < getTotalItems (?cs ! j) \<longrightarrow>
                 (if j < i then getTotalItems (?cs ! i) < getTotalItems (?cs ! j)
                  else getTotalItems (?cs ! i) \<le> getTotalItems (?cs ! j))"
    by blast
  from i have "i = 0 \<or> i = 1" by auto
  moreover have "i \<noteq> 1"
  proof
    assume "i = 1"
    with least [rule_format, of 0] show False by (simp add: example_items)
  qed
  ultimately have "i = 0" by simp
  with sel h show ?thesis by (simp add: example_items)
qed

section \<open>Properties of the lookup index\<close>

lemma snd_addBranch:
  "snd (addBranch (exact, byLine) l counts) ln =
     (case byLine ln of
        Some cs \<Rightarrow> Some cs
      | None \<Rightarrow> if lineKey l = ln \<and> list_ex (\<lambda>c. c > 0) counts then Some counts else None)"
  by (simp add: addBranch_def split: option.splits)

lemma branch_fold_first:
  "snd (foldl (\<lambda>maps (key, branch). addBranch maps (loc branch) (orEmpty (cb key)))
          (exact, byLine) entries) ln =
     (case byLine ln of
        Some cs \<Rightarrow> Some cs
      | None \<Rightarrow>
          (case find (\<lambda>(key, branch). lineKey (loc branch) = ln \<and>
                        list_ex (\<lambda>c. c > 0) (orEmpty (cb key))) entries of
             None \<Rightarrow> None
           | Some (key, branch) \<Rightarrow> Some (orEmpty (cb key))))"
proof (induction entries arbitrary: exact byLine)
  case Nil
  show ?case by (simp split: option.splits)
next
  case (Cons e entries)
  obtain key branch where e: "e = (key, branch)" by (cases e)
  obtain exact' byLine' where step: "addBranch (exact, byLine) (loc branch) (orEmpty (cb key)) = (exact', byLine')"
    by (cases "addBranch (exact, byLine) (loc branch) (orEmpty (cb key))")
  have byLine': "byLine' ln = (case byLine ln of
        Some cs \<Rightarrow> Some cs
      | None \<Rightarrow> if lineKey (loc branch) = ln \<and> list_ex (\<lambda>c. c > 0) (orEmpty (cb key))
                then Some (orEmpty (cb key)) else None)"
    using snd_addBranch [of exact byLine "loc branch" "orEmpty (cb key)" ln] step by simp
  show ?case
    unfolding e using Cons.IH [of exact' byLine'] byLine'
    by (simp add: step split: option.splits)
qed

lemma snd_addCount:
  "snd (addCount (exact, byLine) l count) ln =
     (if lineKey l = ln \<and> 0 < count then Some (max (orZero (byLine ln)) count) else byLine ln)"
  by (simp add: addCount_def)

lemma max_step:
  "(if xs = [] then Some (max a c) else Some (Max (insert (orZero (Some (max a c))) (set xs)))) =
     Some (Max (insert a (set (c # xs))))"
proof (cases "xs = []")
  case True
  then show ?thesis by simp
next
  case False
  then have "finite (set xs)" "set xs \<noteq> {}" by simp_all
  then show ?thesis using False by (simp add: orZero_def max.assoc)
qed

lemma count_fold_max:
  "snd (foldl (\<lambda>maps (key, e). addCount maps (locOf e) (orZero (cnt key))) (exact, byLine) entries) ln =
     (if map (\<lambda>(key, e). orZero (cnt key))
           (filter (\<lambda>(key, e). lineKey (locOf e) = ln \<and> 0 < orZero (cnt key)) entries) = []
      then byLine ln
      else Some (Max (insert (orZero (byLine ln))
              (set (map (\<lambda>(key, e). orZero (cnt key))
                 (filter (\<lambda>(key, e). lineKey (locOf e) = ln \<and> 0 < orZero (cnt key)) entries))))))"
proof (induction entries arbitrary: exact byLine)
  case Nil
  show ?case by simp
next
  case (Cons e entries)
  obtain key v where e: "e = (key, v)" by (cases e)
  obtain exact' byLine' where step: "addCount (exact, byLine) (locOf v) (orZero (cnt key)) = (exact', byLine')"
    by (cases "addCount (exact, byLine) (locOf v) (orZero (cnt key))")
  have byLine': "byLine' ln = (if lineKey (locOf v) = ln \<and> 0 < orZero (cnt key)
                then Some (max (orZero (byLine ln)) (orZero (cnt key))) else byLine ln)"
    using snd_addCount [of exact byLine "locOf v" "orZero (cnt key)" ln] step by simp
  let ?P = "lineKey (locOf v) = ln \<and> 0 < orZero (cnt key)"
  let ?F = "filter (\<lambda>(key, e). lineKey (locOf e) = ln \<and> 0 < orZero (cnt key))"
  let ?g = "\<lambda>(key, e). orZero (cnt key)"
  note IH = Cons.IH [of exact' byLine']
  have run: "foldl (\<lambda>maps (key, e). addCount maps (locOf e) (orZero (cnt key))) (exact, byLine) ((key, v) # entries) =
       foldl (\<lambda>maps (key, e). addCount maps (locOf e) (orZero (cnt key))) (exact', byLine') entries"
    by (simp add: step)
  show ?case
  proof (cases ?P)
    case False
    then have b: "byLine' ln = byLine ln" unfolding byLine' by (rule if_not_P)
    have F: "?F ((key, v) # entries) = ?F entries" using False by simp
    show ?thesis unfolding e run F IH b ..
  next
    case True
    then have b: "byLine' ln = Some (max (orZero (byLine ln)) (orZero (cnt key)))"
      unfolding byLine' by (rule if_P)
    have F: "map ?g (?F ((key, v) # entries)) = orZero (cnt key) # map ?g (?F entries)"
      using True by simp
    have nonempty: "(orZero (cnt key) # map ?g (?F entries) = []) = False" by simp
    show ?thesis unfolding e run F IH b max_step nonempty if_False ..
  qed
qed


lemma find_append_first:
  "find P (xs @ ys) = (case find P xs of Some x \<Rightarrow> Some x | None \<Rightarrow> find P ys)"
  by (induction xs) simp_all

lemma branchesByLine_find:
  "branchesByLine (buildLookups d) ln =
     (case find (\<lambda>(key, branch). lineKey (loc branch) = ln \<and>
                   list_ex (\<lambda>c. c > 0) (orEmpty (cov_b d key))) (branchMap d) of
        None \<Rightarrow> None
      | Some (key, branch) \<Rightarrow> Some (orEmpty (cov_b d key)))"
  unfolding buildLookups_def branchLookups_def
  by (simp add: branch_fold_first)

lemma Max_insert_zero: "xs \<noteq> [] \<Longrightarrow> Max (insert (0::nat) (set xs)) = Max (set xs)"
  by simp

lemma byLine_max:
  "snd (foldl (\<lambda>maps (key, e). addCount maps (locOf e) (orZero (cnt key))) (Map.empty, Map.empty) entries) ln =
     (let cs = map (\<lambda>(key, e). orZero (cnt key))
                 (filter (\<lambda>(key, e). lineKey (locOf e) = ln \<and> 0 < orZero (cnt key)) entries)
      in if cs = [] then None else Some (Max (set cs)))"
proof -
  let ?cs = "map (\<lambda>(key, e). orZero (cnt key))
                 (filter (\<lambda>(key, e). lineKey (locOf e) = ln \<and> 0 < orZero (cnt key)) entries)"
  have z: "orZero (Map.empty ln) = 0" by (simp add: orZero_def)
  show ?thesis
  proof (cases "?cs = []")
    case True
    show ?thesis unfolding count_fold_max Let_def if_P [OF True] by simp
  next
    case False
    show ?thesis unfolding count_fold_max Let_def if_not_P [OF False] z
      using Max_insert_zero [OF False] by simp
  qed
qed

lemma stmtsByLine_max:
  "stmtsByLine (buildLookups d) ln =
     (let cs = map (\<lambda>(key, l). orZero (cov_s d key))
                 (filter (\<lambda>(key, l). lineKey l = ln \<and> 0 < orZero (cov_s d key)) (statementMap d))
      in if cs = [] then None else Some (Max (set cs)))"
  using byLine_max [of "\<lambda>l. l" "cov_s d" "statementMap d" ln]
  by (simp add: buildLookups_def stmtLookups_def)

lemma fnsByLine_max:
  "fnsByLine (buildLookups d) ln =
     (let cs = map (\<lambda>(key, fn). orZero (cov_f d key))
                 (filter (\<lambda>(key, fn). lineKey (loc fn) = ln \<and> 0 < orZero (cov_f d key)) (fnMap d))
      in if cs = [] then None else Some (Max (set cs)))"
  using byLine_max [of loc "cov_f d" "fnMap d" ln]
  by (simp add: buildLookups_def fnLookups_def)


text \<open>
  Claim C5. The line-fallback branch index maps a line to the counts of the first branch
  entry on that line, in iteration order, that has a nonzero count; once a prefix of the
  entries has put a line into the index, the remaining entries leave it as it is. The
  statement and function line-fallback indexes hold the maximum nonzero count on the line.
\<close>

theorem buildLookups_line_fallback:
  "branchesByLine (buildLookups d) ln =
     (case find (\<lambda>(key, branch). lineKey (loc branch) = ln \<and>
                   list_ex (\<lambda>c. c > 0) (orEmpty (cov_b d key))) (branchMap d) of
        None \<Rightarrow> None
      | Some (key, branch) \<Rightarrow> Some (orEmpty (cov_b d key))) \<and>
   (\<forall>pre post cs.
      branchMap d = pre @ post \<and>
      branchesByLine (buildLookups (d\<lparr>branchMap := pre\<rparr>)) ln = Some cs \<longrightarrow>
        branchesByLine (buildLookups d) ln = Some cs) \<and>
   stmtsByLine (buildLookups d) ln =
     (let cs = map (\<lambda>(key, l). orZero (cov_s d key))
                 (filter (\<lambda>(key, l). lineKey l = ln \<and> 0 < orZero (cov_s d key)) (statementMap d))
      in if cs = [] then None else Some (Max (set cs))) \<and>
   fnsByLine (buildLookups d) ln =
     (let cs = map (\<lambda>(key, fn). orZero (cov_f d key))
                 (filter (\<lambda>(key, fn). lineKey (loc fn) = ln \<and> 0 < orZero (cov_f d key)) (fnMap d))
      in if cs = [] then None else Some (Max (set cs)))"
proof (intro conjI allI impI)
  show "branchesByLine (buildLookups d) ln =
     (case find (\<lambda>(key, branch). lineKey (loc branch) = ln \<and>
                   list_ex (\<lambda>c. c > 0) (orEmpty (cov_b d key))) (branchMap d) of
        None \<Rightarrow> None
      | Some (key, branch) \<Rightarrow> Some (orEmpty (cov_b d key)))"
    by (rule branchesByLine_find)
next
  fix pre post cs
  assume a: "branchMap d = pre @ post \<and>
      branchesByLine (buildLookups (d\<lparr>branchMap := pre\<rparr>)) ln = Some cs"
  let ?P = "\<lambda>(key, branch). lineKey (loc branch) = ln \<and>
                   list_ex (\<lambda>c. c > 0) (orEmpty (cov_b d key))"
  from a have "(case find ?P pre of None \<Rightarrow> None
      | Some (key, branch) \<Rightarrow> Some (orEmpty (cov_b d key))) = Some cs"
    by (simp add: branchesByLine_find cong: option.case_cong)
  then obtain key branch where f: "find ?P pre = Some (key, branch)" and cs: "orEmpty (cov_b d key) = cs"
    by (auto split: option.splits)
  have "find ?P (branchMap d) = Some (key, branch)"
    using a f by (simp add: find_append_first)
  then show "branchesByLine (buildLookups d) ln = Some cs"
    using cs by (simp add: branchesByLine_find)
next
  show "stmtsByLine (buildLookups d) ln =
     (let cs = map (\<lambda>(key, l). orZero (cov_s d key))
                 (filter (\<lambda>(key, l). lineKey l = ln \<and> 0 < orZero (cov_s d key)) (statementMap d))
      in if cs = [] then None else Some (Max (set cs)))"
    by (rule stmtsByLine_max)
next
  show "fnsByLine (buildLookups d) ln =
     (let cs = map (\<lambda>(key, fn). orZero (cov_f d key))
                 (filter (\<lambda>(key, fn). lineKey (loc fn) = ln \<and> 0 < orZero (cov_f d key)) (fnMap d))
      in if cs = [] then None else Some (Max (set cs)))"
    by (rule fnsByLine_max)
qed

theorem buildLookups_line_fallback_witness:
  "branchMap sharedLine =
     [(''0'', \<lparr>loc = mkLoc 3 (Some 0)\<rparr>), (''1'', \<lparr>loc = mkLoc 3 (Some 4)\<rparr>)] @
     [(''2'', \<lparr>loc = mkLoc 3 (Some 9)\<rparr>)] \<and>
   branchesByLine (buildLookups (sharedLine
     \<lparr>branchMap := [(''0'', \<lparr>loc = mkLoc 3 (Some 0)\<rparr>), (''1'', \<lparr>loc = mkLoc 3 (Some 4)\<rparr>)]\<rparr>)) 3 = Some [0, 1] \<and>
   branchesByLine (buildLookups sharedLine) 3 = Some [0, 1] \<and>
   stmtsByLine (buildLookups sharedLine) 3 = Some 7 \<and>
   fnsByLine (buildLookups sharedLine) 3 = Some 6"
proof -
  let ?pre = "[(''0'', \<lparr>loc = mkLoc 3 (Some 0)\<rparr>), (''1'', \<lparr>loc = mkLoc 3 (Some 4)\<rparr>)]"
  let ?post = "[(''2'', \<lparr>loc = mkLoc 3 (Some 9)\<rparr>)]"
  note spec = buildLookups_line_fallback [of sharedLine 3]
  have split: "branchMap sharedLine = ?pre @ ?post" by (simp add: sharedLine_def)
  have pre: "branchesByLine (buildLookups (sharedLine\<lparr>branchMap := ?pre\<rparr>)) 3 = Some [0, 1]"
    using buildLookups_line_fallback [of "sharedLine\<lparr>branchMap := ?pre\<rparr>" 3]
    by (simp add: sharedLine_def mkLoc_def lineKey_def orEmpty_def)
  from spec split pre have b: "branchesByLine (buildLookups sharedLine) 3 = Some [0, 1]" by blast
  from spec have s: "stmtsByLine (buildLookups sharedLine) 3 = Some 7"
    by (simp add: sharedLine_def mkLoc_def lineKey_def orZero_def)
  from spec have f: "fnsByLine (buildLookups sharedLine) 3 = Some 6"
    by (simp add: sharedLine_def mkLoc_def lineKey_def orZero_def)
  from split pre b s f show ?thesis by blast
qed

section \<open>Properties of the file merge\<close>

lemma finite_contributions: "finite {c. \<exists>x\<in>set xs. g x = Some c}"
proof -
  have "{c. \<exists>x\<in>set xs. g x = Some c} \<subseteq> the ` g ` set xs" by force
  then show ?thesis by (rule finite_subset) simp
qed

lemma contributions_Cons:
  "{c. \<exists>x\<in>set (a # xs). g x = Some c} =
     (case g a of None \<Rightarrow> {} | Some c \<Rightarrow> {c}) \<union> {c. \<exists>x\<in>set xs. g x = Some c}"
  by (auto split: option.splits)

lemma raiseMax_fold:
  "foldl (\<lambda>maxCount x. raiseMax maxCount (g x)) init xs =
     Max (insert init {c. \<exists>x\<in>set xs. g x = Some c})"
proof (induction xs arbitrary: init)
  case Nil
  show ?case by simp
next
  case (Cons a xs)
  let ?rest = "{c. \<exists>x\<in>set xs. g x = Some c}"
  have fin: "finite ?rest" by (rule finite_contributions)
  have run: "foldl (\<lambda>maxCount x. raiseMax maxCount (g x)) init (a # xs) =
      Max (insert (raiseMax init (g a)) ?rest)"
    by (simp add: Cons.IH)
  show ?case
  proof (cases "g a")
    case None
    have r: "raiseMax init None = init" by (simp add: raiseMax_def)
    show ?thesis unfolding run contributions_Cons [of a xs g] None r by simp
  next
    case (Some c)
    have r: "raiseMax init (Some c) = max init c" by (simp add: raiseMax_def max_def)
    have "Max (insert (max init c) ?rest) = Max (insert init (insert c ?rest))"
    proof (cases "?rest = {}")
      case True
      then show ?thesis by simp
    next
      case False
      with fin show ?thesis by (simp add: max.assoc)
    qed
    then show ?thesis unfolding run contributions_Cons [of a xs g] Some r by simp
  qed
qed

lemma raiseMax_fold_set:
  "set xs = set ys \<Longrightarrow>
     foldl (\<lambda>maxCount x. raiseMax maxCount (g x)) init xs =
     foldl (\<lambda>maxCount x. raiseMax maxCount (g x)) init ys"
  by (simp add: raiseMax_fold)

lemma raiseMax_fold_ge: "init \<le> foldl (\<lambda>maxCount x. raiseMax maxCount (g x)) init xs"
  by (simp add: raiseMax_fold finite_contributions)

lemma mergeStatement_other:
  "key \<notin> fst ` set entries \<Longrightarrow> foldl (mergeStatement lks) ms entries key = ms key"
  by (induction entries arbitrary: ms) (auto simp: mergeStatement_def)

lemma mergeStatement_entry:
  "distinct (map fst entries) \<Longrightarrow> (key, l) \<in> set entries \<Longrightarrow>
     foldl (mergeStatement lks) ms entries key =
       Some (foldl (\<lambda>maxCount lookup. raiseMax maxCount (stmtCount lookup l)) (orZero (ms key)) lks)"
proof (induction entries arbitrary: ms)
  case Nil
  then show ?case by simp
next
  case (Cons e entries)
  show ?case
  proof (cases "e = (key, l)")
    case True
    with Cons.prems have "key \<notin> fst ` set entries" by auto
    then show ?thesis
      using True by (simp add: mergeStatement_other) (simp add: mergeStatement_def)
  next
    case False
    with Cons.prems have in_rest: "(key, l) \<in> set entries" and "fst e \<noteq> key"
      by (auto simp: rev_image_eqI)
    then have "mergeStatement lks ms e key = ms key"
      by (cases e) (simp add: mergeStatement_def)
    with Cons.IH [of "mergeStatement lks ms e"] Cons.prems in_rest show ?thesis by simp
  qed
qed

lemma mergeFunction_other:
  "key \<notin> fst ` set entries \<Longrightarrow> foldl (mergeFunction lks) mf entries key = mf key"
  by (induction entries arbitrary: mf) (auto simp: mergeFunction_def)

lemma mergeFunction_entry:
  "distinct (map fst entries) \<Longrightarrow> (key, fn) \<in> set entries \<Longrightarrow>
     foldl (mergeFunction lks) mf entries key =
       Some (foldl (\<lambda>maxCount lookup. raiseMax maxCount (fnCount lookup (loc fn))) (orZero (mf key)) lks)"
proof (induction entries arbitrary: mf)
  case Nil
  then show ?case by simp
next
  case (Cons e entries)
  show ?case
  proof (cases "e = (key, fn)")
    case True
    with Cons.prems have "key \<notin> fst ` set entries" by auto
    then show ?thesis
      using True by (simp add: mergeFunction_other) (simp add: mergeFunction_def)
  next
    case False
    with Cons.prems have in_rest: "(key, fn) \<in> set entries" and "fst e \<noteq> key"
      by (auto simp: rev_image_eqI)
    then have "mergeFunction lks mf e key = mf key"
      by (cases e) (simp add: mergeFunction_def)
    with Cons.IH [of "mergeFunction lks mf e"] Cons.prems in_rest show ?thesis by simp
  qed
qed


lemma selectBestSource_Some:
  assumes "cs \<noteq> []"
  shows "\<exists>best\<in>set cs. selectBestSource cs = Some best"
proof (cases "\<exists>c\<in>set cs. 0 < getTotalItems c")
  case True
  from selectBestSource_lacking selectBestSource_fewest True show ?thesis by (metis nth_mem)
next
  case False
  then have "filter (\<lambda>(c, idx). getTotalItems c > 0) (withIndex cs) = []"
    by (auto simp: filter_empty_conv in_withIndex)
  then have "selectBestSource cs = Some (hd cs)"
    using assms by (cases cs) (simp_all add: selectBestSource_def)
  with assms show ?thesis by simp
qed

lemma fst_addCount:
  "fst (addCount (exact, byLine) l count) k =
     (if locationKey l = k \<and> 0 < count then Some count else exact k)"
  by (simp add: addCount_def)

lemma exact_fold_defined:
  "(fst (foldl (\<lambda>maps (key, e). addCount maps (locOf e) (orZero (cnt key))) (exact, byLine) entries) k \<noteq> None) =
     (exact k \<noteq> None \<or>
      (\<exists>(key, e)\<in>set entries. locationKey (locOf e) = k \<and> 0 < orZero (cnt key)))"
proof (induction entries arbitrary: exact byLine)
  case Nil
  show ?case by simp
next
  case (Cons e entries)
  obtain key v where e: "e = (key, v)" by (cases e)
  obtain exact' byLine' where step: "addCount (exact, byLine) (locOf v) (orZero (cnt key)) = (exact', byLine')"
    by (cases "addCount (exact, byLine) (locOf v) (orZero (cnt key))")
  have exact': "exact' k = (if locationKey (locOf v) = k \<and> 0 < orZero (cnt key)
                then Some (orZero (cnt key)) else exact k)"
    using fst_addCount [of exact byLine "locOf v" "orZero (cnt key)" k] step by simp
  have "(exact' k \<noteq> None) =
      (exact k \<noteq> None \<or> (locationKey (locOf v) = k \<and> 0 < orZero (cnt key)))"
    unfolding exact' by (cases "locationKey (locOf v) = k \<and> 0 < orZero (cnt key)") auto
  then show ?case
    unfolding e using Cons.IH [of exact' byLine'] by (simp add: step)
qed

lemma byLine_defined:
  "(snd (foldl (\<lambda>maps (key, e). addCount maps (locOf e) (orZero (cnt key))) (Map.empty, Map.empty) entries) ln \<noteq> None) =
     (\<exists>(key, e)\<in>set entries. lineKey (locOf e) = ln \<and> 0 < orZero (cnt key))"
  unfolding byLine_max Let_def by (auto simp: filter_empty_conv)

lemma stmtCount_defined:
  "(stmtCount (buildLookups d) l \<noteq> None) =
     (\<exists>(key', l')\<in>set (statementMap d).
        (locationKey l' = locationKey l \<or> lineKey l' = lineKey l) \<and> 0 < orZero (cov_s d key'))"
proof -
  have a: "(stmts (buildLookups d) (locationKey l) \<noteq> None) =
     (\<exists>(key', l')\<in>set (statementMap d). locationKey l' = locationKey l \<and> 0 < orZero (cov_s d key'))"
    using exact_fold_defined [of "\<lambda>l. l" "cov_s d" Map.empty Map.empty "statementMap d" "locationKey l"]
    by (simp add: buildLookups_def stmtLookups_def)
  have b: "(stmtsByLine (buildLookups d) (lineKey l) \<noteq> None) =
     (\<exists>(key', l')\<in>set (statementMap d). lineKey l' = lineKey l \<and> 0 < orZero (cov_s d key'))"
    using byLine_defined [of "\<lambda>l. l" "cov_s d" "statementMap d" "lineKey l"]
    by (simp add: buildLookups_def stmtLookups_def)
  have "(stmtCount (buildLookups d) l \<noteq> None) =
      (stmts (buildLookups d) (locationKey l) \<noteq> None \<or> stmtsByLine (buildLookups d) (lineKey l) \<noteq> None)"
    by (simp add: stmtCount_def orElse_def split: option.splits)
  then show ?thesis unfolding a b by blast
qed

lemma fnCount_defined:
  "(fnCount (buildLookups d) l \<noteq> None) =
     (\<exists>(key', fn')\<in>set (fnMap d).
        (locationKey (loc fn') = locationKey l \<or> lineKey (loc fn') = lineKey l) \<and>
        0 < orZero (cov_f d key'))"
proof -
  have a: "(fns (buildLookups d) (locationKey l) \<noteq> None) =
     (\<exists>(key', fn')\<in>set (fnMap d). locationKey (loc fn') = locationKey l \<and> 0 < orZero (cov_f d key'))"
    using exact_fold_defined [of loc "cov_f d" Map.empty Map.empty "fnMap d" "locationKey l"]
    by (simp add: buildLookups_def fnLookups_def)
  have b: "(fnsByLine (buildLookups d) (lineKey l) \<noteq> None) =
     (\<exists>(key', fn')\<in>set (fnMap d). lineKey (loc fn') = lineKey l \<and> 0 < orZero (cov_f d key'))"
    using byLine_defined [of loc "cov_f d" "fnMap d" "lineKey l"]
    by (simp add: buildLookups_def fnLookups_def)
  have "(fnCount (buildLookups d) l \<noteq> None) =
      (fns (buildLookups d) (locationKey l) \<noteq> None \<or> fnsByLine (buildLookups d) (lineKey l) \<noteq> None)"
    by (simp add: fnCount_def orElse_def split: option.splits)
  then show ?thesis unfolding a b by blast
qed

lemma mergeStatement_set:
  assumes "set lks = set lks'"
  shows "mergeStatement lks = mergeStatement lks'"
proof (rule ext, rule ext)
  fix ms :: "string \<rightharpoonup> nat" and entry :: "string \<times> Location"
  obtain key l where e: "entry = (key, l)" by (cases entry)
  show "mergeStatement lks ms entry = mergeStatement lks' ms entry"
    unfolding e mergeStatement_def
    using raiseMax_fold_set [OF assms, of "\<lambda>lookup. stmtCount lookup l" "orZero (ms key)"]
    by simp
qed

lemma mergeFunction_set:
  assumes "set lks = set lks'"
  shows "mergeFunction lks = mergeFunction lks'"
proof (rule ext, rule ext)
  fix mf :: "string \<rightharpoonup> nat" and entry :: "string \<times> FnEntry"
  obtain key fn where e: "entry = (key, fn)" by (cases entry)
  show "mergeFunction lks mf entry = mergeFunction lks' mf entry"
    unfolding e mergeFunction_def
    using raiseMax_fold_set [OF assms, of "\<lambda>lookup. fnCount lookup (loc fn)" "orZero (mf key)"]
    by simp
qed

lemma mergeFileCoverages_two:
  assumes "2 \<le> length coverages" and "selectBestSource coverages = Some best"
  shows "mergeFileCoverages coverages =
     Inr \<lparr>path = path (coverages ! 0),
          statementMap = statementMap best,
          cov_s = foldl (mergeStatement (map buildLookups coverages)) (cov_s best) (statementMap best),
          fnMap = fnMap best,
          cov_f = foldl (mergeFunction (map buildLookups coverages)) (cov_f best) (fnMap best),
          branchMap = branchMap best,
          cov_b = foldl (mergeBranch (map buildLookups coverages)) (cov_b best) (branchMap best)\<rparr>"
proof -
  from assms(1) have "length coverages \<noteq> 0" "length coverages \<noteq> 1" by auto
  then show ?thesis
    unfolding mergeFileCoverages_def Let_def using assms(2) by simp
qed


lemma contributions_map:
  "{c. \<exists>x\<in>set (map h xs). g x = Some c} = {c. \<exists>y\<in>set xs. g (h y) = Some c}"
  by auto

lemma merged_statement_count:
  assumes "distinct (map fst (statementMap best))" and "(key, l) \<in> set (statementMap best)"
  shows "foldl (mergeStatement (map buildLookups coverages)) (cov_s best) (statementMap best) key =
     Some (Max (insert (orZero (cov_s best key))
                  {c. \<exists>cov\<in>set coverages. stmtCount (buildLookups cov) l = Some c}))"
  unfolding mergeStatement_entry [OF assms] raiseMax_fold contributions_map ..

lemma merged_function_count:
  assumes "distinct (map fst (fnMap best))" and "(key, fn) \<in> set (fnMap best)"
  shows "foldl (mergeFunction (map buildLookups coverages)) (cov_f best) (fnMap best) key =
     Some (Max (insert (orZero (cov_f best key))
                  {c. \<exists>cov\<in>set coverages. fnCount (buildLookups cov) (loc fn) = Some c}))"
  unfolding mergeFunction_entry [OF assms] raiseMax_fold contributions_map ..

lemma of_char_digitChar: "d < 10 \<Longrightarrow> of_char (digitChar d) = 48 + d"
  by (simp add: digitChar_def)

lemma digitChar_inj: "a < 10 \<Longrightarrow> b < 10 \<Longrightarrow> digitChar a = digitChar b \<Longrightarrow> a = b"
proof -
  assume a: "a < 10" and b: "b < 10" and eq: "digitChar a = digitChar b"
  from eq have "(of_char (digitChar a) :: nat) = of_char (digitChar b)" by simp
  with a b show "a = b" by (simp add: of_char_digitChar)
qed

lemma showNat_nonempty: "showNat n \<noteq> []"
  by (subst showNat.simps) simp

lemma showNat_last: "last (showNat n) = digitChar (n mod 10)"
  by (subst showNat.simps) simp

lemma showNat_butlast: "butlast (showNat n) = (if n < 10 then [] else showNat (n div 10))"
  by (subst showNat.simps) simp

lemma showNat_digits: "c \<in> set (showNat n) \<Longrightarrow> \<exists>d<10. c = digitChar d"
proof (induction n arbitrary: c rule: showNat.induct)
  case (1 n)
  show ?case
  proof (cases "n < 10")
    case True
    with "1.prems" show ?thesis by (subst (asm) showNat.simps) auto
  next
    case False
    from "1.prems" have "c \<in> set (showNat (n div 10)) \<or> c = digitChar (n mod 10)"
      using False by (subst (asm) showNat.simps) auto
    then show ?thesis
    proof
      assume "c \<in> set (showNat (n div 10))"
      with "1.IH" [OF False] show ?thesis by blast
    next
      assume "c = digitChar (n mod 10)"
      moreover have "n mod 10 < 10" by simp
      ultimately show ?thesis by blast
    qed
  qed
qed

lemma showNat_inj: "showNat n = showNat m \<Longrightarrow> n = m"
proof (induction n arbitrary: m rule: showNat.induct)
  case (1 n)
  from "1.prems" have l: "digitChar (n mod 10) = digitChar (m mod 10)"
    by (metis showNat_last)
  have units: "n mod 10 = m mod 10"
    by (rule digitChar_inj [OF _ _ l]) simp_all
  from "1.prems" have b: "(if n < 10 then [] else showNat (n div 10)) =
      (if m < 10 then [] else showNat (m div 10))"
    by (metis showNat_butlast)
  show ?case
  proof (cases "n < 10")
    case True
    with b have "m < 10" by (metis showNat_nonempty)
    with True units show ?thesis by simp
  next
    case False
    with b have m: "\<not> m < 10" and eq: "showNat (n div 10) = showNat (m div 10)"
      using showNat_nonempty [of "n div 10"] by (auto split: if_splits)
    from "1.IH" [OF False eq] have "n div 10 = m div 10" .
    with units show ?thesis by (metis div_mult_mod_eq)
  qed
qed

lemma split_at_unique:
  "sep \<notin> set a \<Longrightarrow> sep \<notin> set b \<Longrightarrow> a @ sep # x = b @ sep # y \<Longrightarrow> a = b \<and> x = y"
proof (induction a arbitrary: b)
  case Nil
  then show ?case by (cases b) auto
next
  case (Cons c a)
  then show ?case by (cases b) auto
qed

lemma colon_not_digit: "CHR '':'' \<notin> set (showNat n)"
proof
  assume "CHR '':'' \<in> set (showNat n)"
  then obtain d where d: "d < 10" "CHR '':'' = digitChar d" using showNat_digits by blast
  then have "(of_char (CHR '':'') :: nat) = 48 + d" by (simp add: of_char_digitChar)
  with d(1) show False by simp
qed

lemma null_not_number: "showNat n \<noteq> ''null''"
proof
  assume "showNat n = ''null''"
  then have "CHR ''n'' \<in> set (showNat n)" by simp
  then obtain d where d: "d < 10" "CHR ''n'' = digitChar d" using showNat_digits by blast
  then have "(of_char (CHR ''n'') :: nat) = 48 + d" by (simp add: of_char_digitChar)
  with d(1) show False by simp
qed

lemma showColumn_inj: "showColumn a = showColumn b \<Longrightarrow> a = b"
  using null_not_number
  by (cases a; cases b) (auto simp: showColumn_def dest: showNat_inj)

lemma locationKey_eq:
  "(locationKey l' = locationKey l) =
     (line (start l') = line (start l) \<and> column (start l') = column (start l))"
proof
  assume "locationKey l' = locationKey l"
  then have "showNat (line (start l')) @ CHR '':'' # showColumn (column (start l')) =
      showNat (line (start l)) @ CHR '':'' # showColumn (column (start l))"
    by (simp add: locationKey_def)
  from split_at_unique [OF colon_not_digit colon_not_digit this]
  show "line (start l') = line (start l) \<and> column (start l') = column (start l)"
    by (auto dest: showNat_inj showColumn_inj)
next
  assume "line (start l') = line (start l) \<and> column (start l') = column (start l)"
  then show "locationKey l' = locationKey l" by (simp add: locationKey_def)
qed


lemma exact_fold_value:
  "fst (foldl (\<lambda>maps (key, e). addCount maps (locOf e) (orZero (cnt key))) (exact, byLine) entries) k =
     (case find (\<lambda>(key, e). locationKey (locOf e) = k \<and> 0 < orZero (cnt key)) (rev entries) of
        Some (key, e) \<Rightarrow> Some (orZero (cnt key))
      | None \<Rightarrow> exact k)"
proof (induction entries arbitrary: exact byLine)
  case Nil
  show ?case by simp
next
  case (Cons e entries)
  obtain key v where e: "e = (key, v)" by (cases e)
  obtain exact' byLine' where step: "addCount (exact, byLine) (locOf v) (orZero (cnt key)) = (exact', byLine')"
    by (cases "addCount (exact, byLine) (locOf v) (orZero (cnt key))")
  have exact': "exact' k = (if locationKey (locOf v) = k \<and> 0 < orZero (cnt key)
                then Some (orZero (cnt key)) else exact k)"
    using fst_addCount [of exact byLine "locOf v" "orZero (cnt key)" k] step by simp
  have run: "foldl (\<lambda>maps (key, e). addCount maps (locOf e) (orZero (cnt key))) (exact, byLine) ((key, v) # entries) =
       foldl (\<lambda>maps (key, e). addCount maps (locOf e) (orZero (cnt key))) (exact', byLine') entries"
    by (simp add: step)
  show ?case
    unfolding e run Cons.IH [of exact' byLine'] exact'
    by (auto simp: find_append_first split: option.splits)
qed

lemma stmtCount_value:
  "stmtCount (buildLookups d) l =
     (case find (\<lambda>(key', l'). line (start l') = line (start l) \<and>
                   column (start l') = column (start l) \<and> 0 < orZero (cov_s d key'))
             (rev (statementMap d)) of
        Some (key', l') \<Rightarrow> Some (orZero (cov_s d key'))
      | None \<Rightarrow>
          (let cs = map (\<lambda>(key', l'). orZero (cov_s d key'))
                      (filter (\<lambda>(key', l'). line (start l') = line (start l) \<and>
                                 0 < orZero (cov_s d key')) (statementMap d))
           in if cs = [] then None else Some (Max (set cs))))"
proof -
  have a: "stmts (buildLookups d) (locationKey l) =
     (case find (\<lambda>(key', l'). line (start l') = line (start l) \<and>
                   column (start l') = column (start l) \<and> 0 < orZero (cov_s d key'))
             (rev (statementMap d)) of
        Some (key', l') \<Rightarrow> Some (orZero (cov_s d key'))
      | None \<Rightarrow> None)"
    using exact_fold_value [of "\<lambda>l. l" "cov_s d" Map.empty Map.empty "statementMap d" "locationKey l"]
    by (simp add: buildLookups_def stmtLookups_def locationKey_eq conj_assoc)
  show ?thesis
    unfolding stmtCount_def a stmtsByLine_max lineKey_def
    by (simp add: orElse_def split: option.splits)
qed

lemma fnCount_value:
  "fnCount (buildLookups d) l =
     (case find (\<lambda>(key', fn'). line (start (loc fn')) = line (start l) \<and>
                   column (start (loc fn')) = column (start l) \<and> 0 < orZero (cov_f d key'))
             (rev (fnMap d)) of
        Some (key', fn') \<Rightarrow> Some (orZero (cov_f d key'))
      | None \<Rightarrow>
          (let cs = map (\<lambda>(key', fn'). orZero (cov_f d key'))
                      (filter (\<lambda>(key', fn'). line (start (loc fn')) = line (start l) \<and>
                                 0 < orZero (cov_f d key')) (fnMap d))
           in if cs = [] then None else Some (Max (set cs))))"
proof -
  have a: "fns (buildLookups d) (locationKey l) =
     (case find (\<lambda>(key', fn'). line (start (loc fn')) = line (start l) \<and>
                   column (start (loc fn')) = column (start l) \<and> 0 < orZero (cov_f d key'))
             (rev (fnMap d)) of
        Some (key', fn') \<Rightarrow> Some (orZero (cov_f d key'))
      | None \<Rightarrow> None)"
    using exact_fold_value [of loc "cov_f d" Map.empty Map.empty "fnMap d" "locationKey l"]
    by (simp add: buildLookups_def fnLookups_def locationKey_eq conj_assoc)
  show ?thesis
    unfolding fnCount_def a fnsByLine_max lineKey_def
    by (simp add: orElse_def split: option.splits)
qed

text \<open>
  Claim C2. Merging two or more records returns a record with the statement and function
  entries of the selected baseline. For each statement id (function id) of the baseline, ids
  being distinct, the merged count is the maximum of the baseline's own count and the counts
  that the sources contribute for the entry's location. A source contributes, for a location,
  the count of its last entry with a nonzero count at the same line and column (two exact keys
  are equal exactly when line and column are); when it has no such entry, the maximum of its
  nonzero counts on the same line; and nothing when it has neither, so an entry with count
  zero contributes nothing. The merged counts are the same for every other list of the same
  sources, in particular for every reordering, that selects the same baseline.
\<close>

theorem mergeFileCoverages_counts:
  assumes "2 \<le> length coverages"
  shows "\<exists>best merged.
           selectBestSource coverages = Some best \<and> mergeFileCoverages coverages = Inr merged \<and>
           statementMap merged = statementMap best \<and> fnMap merged = fnMap best \<and>
           (distinct (map fst (statementMap best)) \<longrightarrow>
              (\<forall>(key, l)\<in>set (statementMap best).
                 cov_s merged key =
                   Some (Max (insert (orZero (cov_s best key))
                      {c. \<exists>cov\<in>set coverages. stmtCount (buildLookups cov) l = Some c})))) \<and>
           (distinct (map fst (fnMap best)) \<longrightarrow>
              (\<forall>(key, fn)\<in>set (fnMap best).
                 cov_f merged key =
                   Some (Max (insert (orZero (cov_f best key))
                      {c. \<exists>cov\<in>set coverages. fnCount (buildLookups cov) (loc fn) = Some c})))) \<and>
           (\<forall>l l'. (locationKey l' = locationKey l) =
              (line (start l') = line (start l) \<and> column (start l') = column (start l))) \<and>
           (\<forall>cov l. stmtCount (buildLookups cov) l =
              (case find (\<lambda>(key', l'). line (start l') = line (start l) \<and>
                            column (start l') = column (start l) \<and> 0 < orZero (cov_s cov key'))
                      (rev (statementMap cov)) of
                 Some (key', l') \<Rightarrow> Some (orZero (cov_s cov key'))
               | None \<Rightarrow>
                   (let cs = map (\<lambda>(key', l'). orZero (cov_s cov key'))
                               (filter (\<lambda>(key', l'). line (start l') = line (start l) \<and>
                                          0 < orZero (cov_s cov key')) (statementMap cov))
                    in if cs = [] then None else Some (Max (set cs))))) \<and>
           (\<forall>cov l. fnCount (buildLookups cov) l =
              (case find (\<lambda>(key', fn'). line (start (loc fn')) = line (start l) \<and>
                            column (start (loc fn')) = column (start l) \<and> 0 < orZero (cov_f cov key'))
                      (rev (fnMap cov)) of
                 Some (key', fn') \<Rightarrow> Some (orZero (cov_f cov key'))
               | None \<Rightarrow>
                   (let cs = map (\<lambda>(key', fn'). orZero (cov_f cov key'))
                               (filter (\<lambda>(key', fn'). line (start (loc fn')) = line (start l) \<and>
                                          0 < orZero (cov_f cov key')) (fnMap cov))
                    in if cs = [] then None else Some (Max (set cs))))) \<and>
           (\<forall>cov l. (stmtCount (buildLookups cov) l \<noteq> None) =
              (\<exists>(key', l')\<in>set (statementMap cov).
                 (locationKey l' = locationKey l \<or> lineKey l' = lineKey l) \<and>
                 0 < orZero (cov_s cov key'))) \<and>
           (\<forall>cov l. (fnCount (buildLookups cov) l \<noteq> None) =
              (\<exists>(key', fn')\<in>set (fnMap cov).
                 (locationKey (loc fn') = locationKey l \<or> lineKey (loc fn') = lineKey l) \<and>
                 0 < orZero (cov_f cov key'))) \<and>
           (\<forall>coverages'.
              set coverages' = set coverages \<and> 2 \<le> length coverages' \<and>
              selectBestSource coverages' = Some best \<longrightarrow>
                (\<exists>merged'. mergeFileCoverages coverages' = Inr merged' \<and>
                   cov_s merged' = cov_s merged \<and> cov_f merged' = cov_f merged))"
proof -
  from assms have "coverages \<noteq> []" by auto
  from selectBestSource_Some [OF this] obtain best where best: "selectBestSource coverages = Some best"
    by blast
  let ?lks = "map buildLookups coverages"
  let ?merged = "\<lparr>path = path (coverages ! 0),
          statementMap = statementMap best,
          cov_s = foldl (mergeStatement ?lks) (cov_s best) (statementMap best),
          fnMap = fnMap best,
          cov_f = foldl (mergeFunction ?lks) (cov_f best) (fnMap best),
          branchMap = branchMap best,
          cov_b = foldl (mergeBranch ?lks) (cov_b best) (branchMap best)\<rparr>"
  have merged: "mergeFileCoverages coverages = Inr ?merged"
    by (rule mergeFileCoverages_two [OF assms best])
  have s: "distinct (map fst (statementMap best)) \<longrightarrow>
              (\<forall>(key, l)\<in>set (statementMap best).
                 cov_s ?merged key =
                   Some (Max (insert (orZero (cov_s best key))
                      {c. \<exists>cov\<in>set coverages. stmtCount (buildLookups cov) l = Some c})))"
    using merged_statement_count [of best _ _ coverages] by auto
  have f: "distinct (map fst (fnMap best)) \<longrightarrow>
              (\<forall>(key, fn)\<in>set (fnMap best).
                 cov_f ?merged key =
                   Some (Max (insert (orZero (cov_f best key))
                      {c. \<exists>cov\<in>set coverages. fnCount (buildLookups cov) (loc fn) = Some c})))"
    using merged_function_count [of best _ _ coverages] by auto
  have order: "\<forall>coverages'.
              set coverages' = set coverages \<and> 2 \<le> length coverages' \<and>
              selectBestSource coverages' = Some best \<longrightarrow>
                (\<exists>merged'. mergeFileCoverages coverages' = Inr merged' \<and>
                   cov_s merged' = cov_s ?merged \<and> cov_f merged' = cov_f ?merged)"
  proof (intro allI impI)
    fix coverages'
    assume a: "set coverages' = set coverages \<and> 2 \<le> length coverages' \<and>
              selectBestSource coverages' = Some best"
    then have same: "set (map buildLookups coverages') = set ?lks" by simp
    from a have "mergeFileCoverages coverages' =
       Inr \<lparr>path = path (coverages' ! 0),
          statementMap = statementMap best,
          cov_s = foldl (mergeStatement (map buildLookups coverages')) (cov_s best) (statementMap best),
          fnMap = fnMap best,
          cov_f = foldl (mergeFunction (map buildLookups coverages')) (cov_f best) (fnMap best),
          branchMap = branchMap best,
          cov_b = foldl (mergeBranch (map buildLookups coverages')) (cov_b best) (branchMap best)\<rparr>"
      by (intro mergeFileCoverages_two) simp_all
    then show "\<exists>merged'. mergeFileCoverages coverages' = Inr merged' \<and>
                   cov_s merged' = cov_s ?merged \<and> cov_f merged' = cov_f ?merged"
      by (simp add: mergeStatement_set [OF same] mergeFunction_set [OF same])
  qed
  have shape: "statementMap ?merged = statementMap best \<and> fnMap ?merged = fnMap best" by simp
  have counts: "mergeFileCoverages coverages = Inr ?merged \<and>
      statementMap ?merged = statementMap best \<and> fnMap ?merged = fnMap best \<and>
      (distinct (map fst (statementMap best)) \<longrightarrow>
              (\<forall>(key, l)\<in>set (statementMap best).
                 cov_s ?merged key =
                   Some (Max (insert (orZero (cov_s best key))
                      {c. \<exists>cov\<in>set coverages. stmtCount (buildLookups cov) l = Some c})))) \<and>
      (distinct (map fst (fnMap best)) \<longrightarrow>
              (\<forall>(key, fn)\<in>set (fnMap best).
                 cov_f ?merged key =
                   Some (Max (insert (orZero (cov_f best key))
                      {c. \<exists>cov\<in>set coverages. fnCount (buildLookups cov) (loc fn) = Some c}))))"
    using merged shape s f by blast
  show ?thesis
    apply (rule exI [of _ best])
    apply (rule exI [of _ ?merged])
    using best counts order locationKey_eq stmtCount_value fnCount_value stmtCount_defined fnCount_defined
    apply (intro conjI)
    apply blast+
    done
qed

lemma example_select_drift:
  "selectBestSource [sameLineSource, driftBaseline] = Some driftBaseline"
  by (simp add: selectBestSource_def withIndex_def getTotalItems_def hasDirective_def
        sameLineSource_def driftBaseline_def stmtsOnly_def mkLoc_def preferLater_def Let_def upt_rec)

theorem mergeFileCoverages_counts_witness:
  "2 \<le> length [sameLineSource, driftBaseline] \<and>
   distinct (map fst (statementMap driftBaseline)) \<and>
   stmtCount (buildLookups sameLineSource) (mkLoc 3 (Some 0)) = Some 1 \<and>
   stmtCount (buildLookups sameLineSource) (mkLoc 3 (Some 5)) = Some 9 \<and>
   (\<exists>merged. mergeFileCoverages [sameLineSource, driftBaseline] = Inr merged \<and>
      cov_s merged ''0'' = Some 1 \<and> cov_s merged ''1'' = Some 9)"
proof -
  let ?in = "[sameLineSource, driftBaseline]"
  have len: "2 \<le> length ?in" by simp
  have d: "distinct (map fst (statementMap driftBaseline))"
    by (simp add: driftBaseline_def stmtsOnly_def)
  have e0: "(''0'', mkLoc 3 (Some 0)) \<in> set (statementMap driftBaseline)"
    and e1: "(''1'', mkLoc 3 (Some 5)) \<in> set (statementMap driftBaseline)"
    by (simp_all add: driftBaseline_def stmtsOnly_def)
  have base: "orZero (cov_s driftBaseline ''0'') = 0" "orZero (cov_s driftBaseline ''1'') = 0"
    by (simp_all add: driftBaseline_def stmtsOnly_def orZero_def)
  from mergeFileCoverages_counts [OF len] obtain merged where
    m: "mergeFileCoverages ?in = Inr merged"
    and s: "\<forall>(key, l)\<in>set (statementMap driftBaseline).
                 cov_s merged key =
                   Some (Max (insert (orZero (cov_s driftBaseline key))
                      {c. \<exists>cov\<in>set ?in. stmtCount (buildLookups cov) l = Some c}))"
    and v: "\<forall>cov l. stmtCount (buildLookups cov) l =
              (case find (\<lambda>(key', l'). line (start l') = line (start l) \<and>
                            column (start l') = column (start l) \<and> 0 < orZero (cov_s cov key'))
                      (rev (statementMap cov)) of
                 Some (key', l') \<Rightarrow> Some (orZero (cov_s cov key'))
               | None \<Rightarrow>
                   (let cs = map (\<lambda>(key', l'). orZero (cov_s cov key'))
                               (filter (\<lambda>(key', l'). line (start l') = line (start l) \<and>
                                          0 < orZero (cov_s cov key')) (statementMap cov))
                    in if cs = [] then None else Some (Max (set cs))))"
    using d unfolding example_select_drift by auto
  have src0: "stmtCount (buildLookups sameLineSource) (mkLoc 3 (Some 0)) = Some 1"
    unfolding v [rule_format]
    by (simp add: sameLineSource_def stmtsOnly_def mkLoc_def orZero_def)
  have src1: "stmtCount (buildLookups sameLineSource) (mkLoc 3 (Some 5)) = Some 9"
    unfolding v [rule_format]
    by (simp add: sameLineSource_def stmtsOnly_def mkLoc_def orZero_def)
  have own0: "stmtCount (buildLookups driftBaseline) (mkLoc 3 (Some 0)) = None"
    unfolding v [rule_format]
    by (simp add: driftBaseline_def stmtsOnly_def mkLoc_def orZero_def)
  have own1: "stmtCount (buildLookups driftBaseline) (mkLoc 3 (Some 5)) = None"
    unfolding v [rule_format]
    by (simp add: driftBaseline_def stmtsOnly_def mkLoc_def orZero_def)
  have set0: "{c. \<exists>cov\<in>set ?in. stmtCount (buildLookups cov) (mkLoc 3 (Some 0)) = Some c} = {1}"
    and set1: "{c. \<exists>cov\<in>set ?in. stmtCount (buildLookups cov) (mkLoc 3 (Some 5)) = Some c} = {9}"
    by (auto simp: src0 src1 own0 own1)
  from bspec [OF s e0] have c0: "cov_s merged ''0'' = Some 1"
    unfolding prod.case set0 base by simp
  from bspec [OF s e1] have c1: "cov_s merged ''1'' = Some 9"
    unfolding prod.case set1 base by simp
  from len d src0 src1 m c0 c1 show ?thesis by blast
qed

lemma mergeStatement_mono:
  "ms key = Some c \<Longrightarrow> \<exists>c'. foldl (mergeStatement lks) ms entries key = Some c' \<and> c \<le> c'"
proof (induction entries arbitrary: ms c)
  case Nil
  then show ?case by simp
next
  case (Cons e entries)
  obtain k l where e: "e = (k, l)" by (cases e)
  have "\<exists>c1. mergeStatement lks ms e key = Some c1 \<and> c \<le> c1"
  proof (cases "k = key")
    case True
    have "orZero (ms key) \<le> foldl (\<lambda>maxCount lookup. raiseMax maxCount (stmtCount lookup l)) (orZero (ms key)) lks"
      by (rule raiseMax_fold_ge)
    with True Cons.prems show ?thesis by (simp add: e mergeStatement_def orZero_def)
  next
    case False
    with Cons.prems show ?thesis by (simp add: e mergeStatement_def)
  qed
  then obtain c1 where c1: "mergeStatement lks ms e key = Some c1" "c \<le> c1" by blast
  from Cons.IH [of "mergeStatement lks ms e" c1, OF c1(1)] obtain c' where
    "foldl (mergeStatement lks) (mergeStatement lks ms e) entries key = Some c'" "c1 \<le> c'" by blast
  with c1(2) show ?case by (auto intro: le_trans)
qed

lemma mergeFunction_mono:
  "mf key = Some c \<Longrightarrow> \<exists>c'. foldl (mergeFunction lks) mf entries key = Some c' \<and> c \<le> c'"
proof (induction entries arbitrary: mf c)
  case Nil
  then show ?case by simp
next
  case (Cons e entries)
  obtain k fn where e: "e = (k, fn)" by (cases e)
  have "\<exists>c1. mergeFunction lks mf e key = Some c1 \<and> c \<le> c1"
  proof (cases "k = key")
    case True
    have "orZero (mf key) \<le> foldl (\<lambda>maxCount lookup. raiseMax maxCount (fnCount lookup (loc fn))) (orZero (mf key)) lks"
      by (rule raiseMax_fold_ge)
    with True Cons.prems show ?thesis by (simp add: e mergeFunction_def orZero_def)
  next
    case False
    with Cons.prems show ?thesis by (simp add: e mergeFunction_def)
  qed
  then obtain c1 where c1: "mergeFunction lks mf e key = Some c1" "c \<le> c1" by blast
  from Cons.IH [of "mergeFunction lks mf e" c1, OF c1(1)] obtain c' where
    "foldl (mergeFunction lks) (mergeFunction lks mf e) entries key = Some c'" "c1 \<le> c'" by blast
  with c1(2) show ?case by (auto intro: le_trans)
qed

lemma length_maxWith: "length (maxWith baseCounts counts) = length baseCounts"
  by (simp add: maxWith_def)

lemma nth_maxWith:
  "i < length baseCounts \<Longrightarrow>
     maxWith baseCounts counts ! i = max (baseCounts ! i) (if i < length counts then counts ! i else 0)"
  by (simp add: maxWith_def)

lemma branch_inner_fold:
  "foldl (\<lambda>mb' lookup. case g lookup of Some counts \<Rightarrow> mb'(key \<mapsto> maxWith base counts) | None \<Rightarrow> mb')
      mb lks =
     (case List.find (\<lambda>lookup. g lookup \<noteq> None) (rev lks) of
        None \<Rightarrow> mb
      | Some lookup \<Rightarrow> mb(key \<mapsto> maxWith base (the (g lookup))))"
proof (induction lks rule: rev_induct)
  case Nil
  show ?case by simp
next
  case (snoc a lks)
  show ?case
  proof (cases "g a")
    case None
    then show ?thesis using snoc by simp
  next
    case (Some counts)
    then show ?thesis using snoc by (auto simp: fun_eq_iff split: option.splits)
  qed
qed


lemma mergeBranch_last:
  "mergeBranch lks mb (key, branch) =
     (case List.find (\<lambda>lookup. branchCounts lookup (loc branch) \<noteq> None) (rev lks) of
        None \<Rightarrow> mb
      | Some lookup \<Rightarrow>
          mb(key \<mapsto> maxWith (orEmpty (mb key)) (the (branchCounts lookup (loc branch)))))"
  unfolding mergeBranch_def prod.case Let_def
  by (rule branch_inner_fold)

lemma mergeBranch_step_mono:
  assumes "mb key = Some cs"
  shows "\<exists>cs'. mergeBranch lks mb e key = Some cs' \<and> length cs' = length cs \<and>
           (\<forall>i<length cs. cs ! i \<le> cs' ! i)"
proof -
  obtain k branch where e: "e = (k, branch)" by (cases e)
  show ?thesis
  proof (cases "List.find (\<lambda>lookup. branchCounts lookup (loc branch) \<noteq> None) (rev lks)")
    case None
    then show ?thesis using assms by (simp add: e mergeBranch_last)
  next
    case (Some lookup)
    show ?thesis
    proof (cases "k = key")
      case True
      then show ?thesis using assms Some
        by (simp add: e mergeBranch_last orEmpty_def length_maxWith nth_maxWith)
    next
      case False
      then show ?thesis using assms Some by (simp add: e mergeBranch_last)
    qed
  qed
qed

lemma mergeBranch_mono:
  "mb key = Some cs \<Longrightarrow>
     \<exists>cs'. foldl (mergeBranch lks) mb entries key = Some cs' \<and> length cs' = length cs \<and>
       (\<forall>i<length cs. cs ! i \<le> cs' ! i)"
proof (induction entries arbitrary: mb cs)
  case Nil
  then show ?case by simp
next
  case (Cons e entries)
  from mergeBranch_step_mono [of mb key cs lks e, OF Cons.prems] obtain c1 where
    c1: "mergeBranch lks mb e key = Some c1" "length c1 = length cs" "\<forall>i<length cs. cs ! i \<le> c1 ! i"
    by blast
  from Cons.IH [of "mergeBranch lks mb e" c1, OF c1(1)] obtain cs' where
    cs': "foldl (mergeBranch lks) (mergeBranch lks mb e) entries key = Some cs'"
      "length cs' = length c1" "\<forall>i<length c1. c1 ! i \<le> cs' ! i"
    by blast
  have "\<forall>i<length cs. cs ! i \<le> cs' ! i"
    using c1(2,3) cs'(3) by (metis le_trans)
  with cs'(1,2) c1(2) show ?case by simp
qed

text \<open>
  Claim C4. Merging two or more records returns a record in which every statement count,
  function count and branch count of the selected baseline is kept or raised: a count present
  in the baseline is present in the merged record and is not smaller there, and a branch
  array keeps its length.
\<close>

theorem mergeFileCoverages_never_decreases:
  assumes "2 \<le> length coverages"
  shows "\<exists>best merged.
           selectBestSource coverages = Some best \<and> best \<in> set coverages \<and>
           mergeFileCoverages coverages = Inr merged \<and>
           (\<forall>key c. cov_s best key = Some c \<longrightarrow> (\<exists>c'. cov_s merged key = Some c' \<and> c \<le> c')) \<and>
           (\<forall>key c. cov_f best key = Some c \<longrightarrow> (\<exists>c'. cov_f merged key = Some c' \<and> c \<le> c')) \<and>
           (\<forall>key cs. cov_b best key = Some cs \<longrightarrow>
              (\<exists>cs'. cov_b merged key = Some cs' \<and> length cs' = length cs \<and>
                 (\<forall>i<length cs. cs ! i \<le> cs' ! i)))"
proof -
  from assms have "coverages \<noteq> []" by auto
  from selectBestSource_Some [OF this] obtain best where best: "selectBestSource coverages = Some best"
    and mem: "best \<in> set coverages"
    by blast
  let ?lks = "map buildLookups coverages"
  let ?merged = "\<lparr>path = path (coverages ! 0),
          statementMap = statementMap best,
          cov_s = foldl (mergeStatement ?lks) (cov_s best) (statementMap best),
          fnMap = fnMap best,
          cov_f = foldl (mergeFunction ?lks) (cov_f best) (fnMap best),
          branchMap = branchMap best,
          cov_b = foldl (mergeBranch ?lks) (cov_b best) (branchMap best)\<rparr>"
  have merged: "mergeFileCoverages coverages = Inr ?merged"
    by (rule mergeFileCoverages_two [OF assms best])
  have s: "\<forall>key c. cov_s best key = Some c \<longrightarrow> (\<exists>c'. cov_s ?merged key = Some c' \<and> c \<le> c')"
    using mergeStatement_mono [of "cov_s best"] by simp
  have f: "\<forall>key c. cov_f best key = Some c \<longrightarrow> (\<exists>c'. cov_f ?merged key = Some c' \<and> c \<le> c')"
    using mergeFunction_mono [of "cov_f best"] by simp
  have b: "\<forall>key cs. cov_b best key = Some cs \<longrightarrow>
              (\<exists>cs'. cov_b ?merged key = Some cs' \<and> length cs' = length cs \<and>
                 (\<forall>i<length cs. cs ! i \<le> cs' ! i))"
    using mergeBranch_mono [of "cov_b best"] by simp
  from best mem merged s f b show ?thesis by blast
qed

lemma example_mixed_items: "getTotalItems (mixedCov n cs) = 3" "hasDirective (mixedCov n cs)"
  by (simp_all add: getTotalItems_def hasDirective_def mixedCov_def mkLoc_def)

lemma example_select_mixed:
  "selectBestSource [mixedCov 5 [1, 0], mixedCov 3 [0, 1]] = Some (mixedCov 5 [1, 0])"
  by (simp add: selectBestSource_def withIndex_def example_mixed_items preferFewer_def Let_def upt_rec)

theorem mergeFileCoverages_never_decreases_witness:
  "2 \<le> length [mixedCov 5 [1, 0], mixedCov 3 [0, 1]] \<and>
   (\<exists>merged c f cs. mergeFileCoverages [mixedCov 5 [1, 0], mixedCov 3 [0, 1]] = Inr merged \<and>
      cov_s merged ''0'' = Some c \<and> 1 \<le> c \<and>
      cov_f merged ''0'' = Some f \<and> 5 \<le> f \<and>
      cov_b merged ''0'' = Some cs \<and> length cs = 2 \<and> 1 \<le> cs ! 0 \<and> 0 \<le> cs ! 1)"
proof -
  let ?in = "[mixedCov 5 [1, 0], mixedCov 3 [0, 1]]"
  have len: "2 \<le> length ?in" by simp
  have base: "cov_s (mixedCov 5 [1, 0]) ''0'' = Some 1" "cov_f (mixedCov 5 [1, 0]) ''0'' = Some 5"
    "cov_b (mixedCov 5 [1, 0]) ''0'' = Some [1, 0]"
    by (simp_all add: mixedCov_def)
  from mergeFileCoverages_never_decreases [OF len] obtain merged where
    m: "mergeFileCoverages ?in = Inr merged"
    and s: "\<forall>key c. cov_s (mixedCov 5 [1, 0]) key = Some c \<longrightarrow> (\<exists>c'. cov_s merged key = Some c' \<and> c \<le> c')"
    and f: "\<forall>key c. cov_f (mixedCov 5 [1, 0]) key = Some c \<longrightarrow> (\<exists>c'. cov_f merged key = Some c' \<and> c \<le> c')"
    and b: "\<forall>key cs. cov_b (mixedCov 5 [1, 0]) key = Some cs \<longrightarrow>
              (\<exists>cs'. cov_b merged key = Some cs' \<and> length cs' = length cs \<and>
                 (\<forall>i<length cs. cs ! i \<le> cs' ! i))"
    unfolding example_select_mixed by auto
  from s base(1) obtain c where c: "cov_s merged ''0'' = Some c" "1 \<le> c" by blast
  from f base(2) obtain fc where fc: "cov_f merged ''0'' = Some fc" "5 \<le> fc" by blast
  from b base(3) obtain cs where cs: "cov_b merged ''0'' = Some cs" "length cs = length [1::nat, 0]"
    "\<forall>i<length [1::nat, 0]. [1, 0] ! i \<le> cs ! i" by blast
  from cs(3) have "1 \<le> cs ! 0" by force
  with len m c fc cs(1,2) show ?thesis by auto
qed


text \<open>
  Claim C1 does not hold of the code. In the branch loop \<open>baseCounts\<close> is read once per
  branch id and never updated, so each contributing source overwrites the result of the
  previous one (lemma \<open>mergeBranch_last\<close>): the merged array is the index-wise maximum of
  the baseline and the last contributing source only. With sources \<open>[3, 0]\<close> and
  \<open>[0, 1]\<close> (the second is the baseline) the merged array is \<open>[0, 1]\<close>, not
  \<open>[3, 1]\<close>, although the first source's lookup yields \<open>[3, 0]\<close>; and the shorter
  array \<open>[0, 1]\<close> of a later source lowers index 2 of \<open>[1, 0, 7]\<close> to 0.
\<close>

theorem mergeFileCoverages_branch_overwritten:
  "map_sum id (\<lambda>merged. cov_b merged ''0'')
     (mergeFileCoverages [branchOnly [3, 0], branchOnly [0, 1]]) = Inr (Some [0, 1]) \<and>
   selectBestSource [branchOnly [3, 0], branchOnly [0, 1]] = Some (branchOnly [0, 1]) \<and>
   branchCounts (buildLookups (branchOnly [3, 0])) (mkLoc 5 (Some 0)) = Some [3, 0] \<and>
   map_sum id (\<lambda>merged. cov_b merged ''0'')
     (mergeFileCoverages [branchOnly [1, 0, 7], branchOnly [0, 1], branchOnly [0, 0, 0]]) =
     Inr (Some [0, 1, 0]) \<and>
   branchCounts (buildLookups (branchOnly [1, 0, 7])) (mkLoc 5 (Some 0)) = Some [1, 0, 7]"
proof (intro conjI)
  show "map_sum id (\<lambda>merged. cov_b merged ''0'')
     (mergeFileCoverages [branchOnly [3, 0], branchOnly [0, 1]]) = Inr (Some [0, 1])"
    by code_simp
  show "selectBestSource [branchOnly [3, 0], branchOnly [0, 1]] = Some (branchOnly [0, 1])"
    by (simp add: selectBestSource_def withIndex_def getTotalItems_def hasDirective_def
          branchOnly_def preferLater_def Let_def upt_rec)
  show "branchCounts (buildLookups (branchOnly [3, 0])) (mkLoc 5 (Some 0)) = Some [3, 0]"
    by code_simp
  show "map_sum id (\<lambda>merged. cov_b merged ''0'')
     (mergeFileCoverages [branchOnly [1, 0, 7], branchOnly [0, 1], branchOnly [0, 0, 0]]) =
     Inr (Some [0, 1, 0])"
    by code_simp
  show "branchCounts (buildLookups (branchOnly [1, 0, 7])) (mkLoc 5 (Some 0)) = Some [1, 0, 7]"
    by code_simp
qed

section \<open>Properties of the map merge\<close>

lemma hasKey_iff: "hasKey m file \<longleftrightarrow> file \<in> fst ` set m"
  by (simp add: hasKey_def map_of_eq_None_iff)

lemma set_foldl_setAdd: "set (foldl setAdd acc fs) = set acc \<union> set fs"
  by (induction fs arbitrary: acc) (auto simp: setAdd_def)

lemma set_collect_from:
  "set (foldl (\<lambda>allFiles m. foldl setAdd allFiles (map fst m)) acc ms) =
     set acc \<union> (\<Union>m\<in>set ms. fst ` set m)"
  by (induction ms arbitrary: acc) (auto simp: set_foldl_setAdd)

lemma set_collectFiles: "set (collectFiles ms) = (\<Union>m\<in>set ms. fst ` set m)"
  by (simp add: collectFiles_def set_collect_from)

lemma fileCoveragesOf_nonempty:
  "file \<in> set (collectFiles ms) \<Longrightarrow> fileCoveragesOf ms file \<noteq> []"
  by (auto simp: set_collectFiles fileCoveragesOf_def filter_empty_conv hasKey_iff)

lemma mergeFileCoverages_returns:
  assumes "cs \<noteq> []"
  shows "\<exists>r. mergeFileCoverages cs = Inr r"
proof (cases "length cs = 1")
  case True
  then show ?thesis by (simp add: mergeFileCoverages_def)
next
  case False
  moreover from assms have "length cs \<noteq> 0" by simp
  ultimately have len: "2 \<le> length cs" by arith
  from selectBestSource_Some [OF assms] obtain best where "selectBestSource cs = Some best" by blast
  from mergeFileCoverages_two [OF len this] show ?thesis by blast
qed

lemma mergeFiles_returns:
  "\<forall>file\<in>set files. fileCoveragesOf ms file \<noteq> [] \<Longrightarrow> \<exists>r. mergeFiles ms merged files = Inr r"
proof (induction files arbitrary: merged)
  case Nil
  show ?case by simp
next
  case (Cons g files)
  then have ne: "fileCoveragesOf ms g \<noteq> []" by simp
  from mergeFileCoverages_returns [OF ne] obtain r where r: "mergeFileCoverages (fileCoveragesOf ms g) = Inr r"
    by blast
  from Cons show ?case by (simp add: Let_def r)
qed

lemma mergeFiles_single:
  "mergeFiles ms merged files = Inr r \<Longrightarrow> fileCoveragesOf ms file = [d] \<Longrightarrow>
     file \<in> set files \<or> map_of merged file = Some d \<Longrightarrow> map_of r file = Some d"
proof (induction files arbitrary: merged)
  case Nil
  then show ?case by simp
next
  case (Cons g files)
  show ?case
  proof (cases "g = file")
    case True
    have "map_of (AList.update file d merged) file = Some d" by (simp add: update_conv')
    with Cons.IH [of "AList.update file d merged"] Cons.prems True show ?thesis
      by (simp add: Let_def)
  next
    case False
    note neq = this
    show ?thesis
    proof (cases "length (fileCoveragesOf ms g) = 1")
      case True
      have "file \<in> set files \<or> map_of (AList.update g (fileCoveragesOf ms g ! 0) merged) file = Some d"
        using Cons.prems(3) neq by (auto simp: update_conv')
      with Cons.IH [of "AList.update g (fileCoveragesOf ms g ! 0) merged"] Cons.prems True show ?thesis
        by (simp add: Let_def)
    next
      case False
      with Cons.prems(1) obtain x where x: "mergeFileCoverages (fileCoveragesOf ms g) = Inr x"
        and rest: "mergeFiles ms (AList.update g x merged) files = Inr r"
        by (auto simp: Let_def split: sum.splits)
      have "file \<in> set files \<or> map_of (AList.update g x merged) file = Some d"
        using Cons.prems(3) neq by (auto simp: update_conv')
      with Cons.IH [OF rest Cons.prems(2)] show ?thesis by simp
    qed
  qed
qed


text \<open>
  Claim C7. When two or more maps are merged and exactly one of them contains a file path,
  the merge returns a map whose record for that path is the record of that one input map.
\<close>

theorem smartMergeCoverage_single_source:
  assumes "2 \<le> length coverageMaps"
    and "filter (\<lambda>m. hasKey m file) coverageMaps = [m]"
  shows "\<exists>merged d. smartMergeCoverage coverageMaps = Inr merged \<and>
           map_of m file = Some d \<and> map_of merged file = Some d"
proof -
  from assms(2) have "m \<in> set (filter (\<lambda>m. hasKey m file) coverageMaps)" by simp
  then have m: "m \<in> set coverageMaps" "hasKey m file" by simp_all
  then obtain d where d: "map_of m file = Some d" by (auto simp: hasKey_def)
  have single: "fileCoveragesOf coverageMaps file = [d]"
    by (simp add: fileCoveragesOf_def assms(2) d)
  have files: "file \<in> set (collectFiles coverageMaps)"
    using m by (auto simp: set_collectFiles hasKey_iff)
  from assms(1) have sm: "smartMergeCoverage coverageMaps =
      mergeFiles coverageMaps [] (collectFiles coverageMaps)"
    by (auto simp: smartMergeCoverage_def)
  have "\<forall>f\<in>set (collectFiles coverageMaps). fileCoveragesOf coverageMaps f \<noteq> []"
    by (simp add: fileCoveragesOf_nonempty)
  from mergeFiles_returns [OF this] obtain merged where
    merged: "mergeFiles coverageMaps [] (collectFiles coverageMaps) = Inr merged"
    by blast
  from mergeFiles_single [OF merged single] files have "map_of merged file = Some d" by blast
  with sm merged d show ?thesis by simp
qed

theorem smartMergeCoverage_single_source_witness:
  "2 \<le> length [unitOnlyMap, componentOnlyMap] \<and>
   filter (\<lambda>m. hasKey m ''/path/to/unit-only.ts'') [unitOnlyMap, componentOnlyMap] = [unitOnlyMap] \<and>
   (\<exists>merged. smartMergeCoverage [unitOnlyMap, componentOnlyMap] = Inr merged \<and>
      map_of merged ''/path/to/unit-only.ts'' =
        Some (unitDirective\<lparr>path := ''/path/to/unit-only.ts''\<rparr>))"
proof -
  have len: "2 \<le> length [unitOnlyMap, componentOnlyMap]" by simp
  have one: "filter (\<lambda>m. hasKey m ''/path/to/unit-only.ts'') [unitOnlyMap, componentOnlyMap] = [unitOnlyMap]"
    by (simp add: hasKey_def unitOnlyMap_def componentOnlyMap_def)
  have d: "map_of unitOnlyMap ''/path/to/unit-only.ts'' =
      Some (unitDirective\<lparr>path := ''/path/to/unit-only.ts''\<rparr>)"
    by (simp add: unitOnlyMap_def)
  from smartMergeCoverage_single_source [OF len one] d len one show ?thesis by auto
qed

section \<open>Properties of the normalization\<close>

lemma normalizeCoverage_from:
  "foldl (normalizeEntry fs) acc cm =
     \<lparr>importsRemoved = importsRemoved acc +
         sum_list (map (\<lambda>(p, d). importsRemoved (snd (normalizeFileCoverage fs p d))) cm),
      directivesRemoved = directivesRemoved acc +
         sum_list (map (\<lambda>(p, d). directivesRemoved (snd (normalizeFileCoverage fs p d))) cm),
      coverageMap = coverageMap acc @ map (\<lambda>(p, d). (p, fst (normalizeFileCoverage fs p d))) cm\<rparr>"
proof (induction cm arbitrary: acc)
  case Nil
  show ?case by simp
next
  case (Cons e cm)
  obtain p d where e: "e = (p, d)" by (cases e)
  obtain d' res where n: "normalizeFileCoverage fs p d = (d', res)"
    by (cases "normalizeFileCoverage fs p d")
  have step: "normalizeEntry fs acc (p, d) =
      \<lparr>importsRemoved = importsRemoved acc + importsRemoved res,
       directivesRemoved = directivesRemoved acc + directivesRemoved res,
       coverageMap = coverageMap acc @ [(p, d')]\<rparr>"
    by (simp add: normalizeEntry_def n)
  show ?case unfolding e foldl_Cons step Cons.IH by (simp add: n)
qed

lemma normalizeCoverage_eq:
  "normalizeCoverage fs cm =
     \<lparr>importsRemoved = sum_list (map (\<lambda>(p, d). importsRemoved (snd (normalizeFileCoverage fs p d))) cm),
      directivesRemoved = sum_list (map (\<lambda>(p, d). directivesRemoved (snd (normalizeFileCoverage fs p d))) cm),
      coverageMap = map (\<lambda>(p, d). (p, fst (normalizeFileCoverage fs p d))) cm\<rparr>"
  by (simp add: normalizeCoverage_def normalizeCoverage_from)

lemma removeKey_fold:
  "foldl removeKey (d, r) ks =
     (d\<lparr>statementMap := filter (\<lambda>(k, stmt). k \<notin> fst ` set ks) (statementMap d),
        cov_s := cov_s d |` (- fst ` set ks)\<rparr>,
      \<lparr>importsRemoved = importsRemoved r + length (filter (\<lambda>(k, t). t = Import) ks),
       directivesRemoved = directivesRemoved r + length (filter (\<lambda>(k, t). t \<noteq> Import) ks)\<rparr>)"
proof (induction ks arbitrary: d r)
  case Nil
  show ?case by simp
next
  case (Cons e ks)
  obtain key t where e: "e = (key, t)" by (cases e)
  have sm: "filter (\<lambda>(k, stmt). k \<notin> fst ` set ks) (AList.delete key (statementMap d)) =
        filter (\<lambda>(k, stmt). k \<notin> fst ` set ((key, t) # ks)) (statementMap d)"
    by (auto simp: AList.delete_eq intro: filter_cong)
  have cs: "((cov_s d)(key := None)) |` (- fst ` set ks) = cov_s d |` (- fst ` set ((key, t) # ks))"
    by (auto simp: restrict_map_def fun_eq_iff)
  have step: "removeKey (d, r) (key, t) =
      (d\<lparr>statementMap := AList.delete key (statementMap d), cov_s := (cov_s d)(key := None)\<rparr>,
       if t = Import then r\<lparr>importsRemoved := importsRemoved r + 1\<rparr>
       else r\<lparr>directivesRemoved := directivesRemoved r + 1\<rparr>)"
    by (simp add: removeKey_def)
  have s1: "- fst ` set ks - {key} = - insert key (fst ` set ks)" by auto
  have s2: "key \<in> fst ` set ks \<Longrightarrow> - insert key (fst ` set ks) = - fst ` set ks" by auto
  show ?case unfolding e foldl_Cons step Cons.IH
    by (cases "t = Import") (auto simp: sm s1 s2)
qed


lemma splitLines_nonempty: "splitLines src \<noteq> []"
  by (induction src) (auto split: list.splits)

lemma findKeysToRemove_Nil: "findKeysToRemove lines [] = []"
  by (simp add: findKeysToRemove_def)

lemma findKeysToRemove_Cons:
  "findKeysToRemove lines ((k, stmt) # sm) =
     (case classify lines stmt of None \<Rightarrow> [] | Some t \<Rightarrow> [(k, t)]) @ findKeysToRemove lines sm"
  by (simp add: findKeysToRemove_def)

lemma in_findKeysToRemove:
  "(k, t) \<in> set (findKeysToRemove lines sm) \<longleftrightarrow>
     (\<exists>stmt. (k, stmt) \<in> set sm \<and> classify lines stmt = Some t)"
proof (induction sm)
  case Nil
  show ?case by (simp add: findKeysToRemove_Nil)
next
  case (Cons e sm)
  obtain k' stmt' where e: "e = (k', stmt')" by (cases e)
  show ?case unfolding e findKeysToRemove_Cons
    using Cons by (cases "classify lines stmt'") auto
qed

lemma keys_findKeysToRemove:
  "fst ` set (findKeysToRemove lines sm) =
     {k. \<exists>stmt. (k, stmt) \<in> set sm \<and> classify lines stmt \<noteq> None}"
proof (intro set_eqI iffI)
  fix k assume "k \<in> fst ` set (findKeysToRemove lines sm)"
  then obtain t where "(k, t) \<in> set (findKeysToRemove lines sm)" by auto
  then show "k \<in> {k. \<exists>stmt. (k, stmt) \<in> set sm \<and> classify lines stmt \<noteq> None}"
    unfolding in_findKeysToRemove by auto
next
  fix k assume "k \<in> {k. \<exists>stmt. (k, stmt) \<in> set sm \<and> classify lines stmt \<noteq> None}"
  then obtain stmt t where "(k, stmt) \<in> set sm" "classify lines stmt = Some t" by auto
  then have "(k, t) \<in> set (findKeysToRemove lines sm)" unfolding in_findKeysToRemove by blast
  then show "k \<in> fst ` set (findKeysToRemove lines sm)" by force
qed

lemma imports_findKeysToRemove:
  "length (filter (\<lambda>(k, t). t = Import) (findKeysToRemove lines sm)) =
     length (filter (\<lambda>(k, stmt). classify lines stmt = Some Import) sm)"
proof (induction sm)
  case Nil
  show ?case by (simp add: findKeysToRemove_Nil)
next
  case (Cons e sm)
  obtain k stmt where e: "e = (k, stmt)" by (cases e)
  show ?case
  proof (cases "classify lines stmt")
    case None
    then show ?thesis unfolding e findKeysToRemove_Cons using Cons by simp
  next
    case (Some t)
    then show ?thesis unfolding e findKeysToRemove_Cons using Cons by (cases t) simp_all
  qed
qed

lemma directives_findKeysToRemove:
  "length (filter (\<lambda>(k, t). t \<noteq> Import) (findKeysToRemove lines sm)) =
     length (filter (\<lambda>(k, stmt). classify lines stmt = Some Directive) sm)"
proof (induction sm)
  case Nil
  show ?case by (simp add: findKeysToRemove_Nil)
next
  case (Cons e sm)
  obtain k stmt where e: "e = (k, stmt)" by (cases e)
  show ?case
  proof (cases "classify lines stmt")
    case None
    then show ?thesis unfolding e findKeysToRemove_Cons using Cons by simp
  next
    case (Some t)
    then show ?thesis unfolding e findKeysToRemove_Cons using Cons by (cases t) simp_all
  qed
qed

lemma kept_unclassified:
  "(k, stmt) \<in> set sm \<Longrightarrow> k \<notin> fst ` set (findKeysToRemove lines sm) \<Longrightarrow>
     classify lines stmt = None"
  unfolding keys_findKeysToRemove by auto

lemma findKeysToRemove_none:
  "(\<forall>(k, stmt)\<in>set sm. classify lines stmt = None) \<Longrightarrow> findKeysToRemove lines sm = []"
proof (induction sm)
  case Nil
  show ?case by (simp add: findKeysToRemove_Nil)
next
  case (Cons e sm)
  obtain k stmt where e: "e = (k, stmt)" by (cases e)
  from Cons.prems have "classify lines stmt = None" by (simp add: e)
  moreover from Cons have "findKeysToRemove lines sm = []" by simp
  ultimately show ?case unfolding e findKeysToRemove_Cons by simp
qed

lemma kept_distinct:
  assumes "distinct (map fst sm)"
  shows "filter (\<lambda>(k, stmt). k \<notin> fst ` set (findKeysToRemove lines sm)) sm =
     filter (\<lambda>(k, stmt). classify lines stmt = None) sm"
proof (rule filter_cong [OF refl])
  fix e assume mem: "e \<in> set sm"
  obtain k stmt where e: "e = (k, stmt)" by (cases e)
  have "(k \<notin> fst ` set (findKeysToRemove lines sm)) = (classify lines stmt = None)"
  proof
    assume "k \<notin> fst ` set (findKeysToRemove lines sm)"
    with mem e show "classify lines stmt = None" by (auto dest: kept_unclassified)
  next
    assume none: "classify lines stmt = None"
    show "k \<notin> fst ` set (findKeysToRemove lines sm)"
    proof
      assume "k \<in> fst ` set (findKeysToRemove lines sm)"
      then obtain stmt' where other: "(k, stmt') \<in> set sm" "classify lines stmt' \<noteq> None"
        unfolding keys_findKeysToRemove by blast
      from assms mem other(1) have "stmt' = stmt"
        unfolding e by (meson eq_key_imp_eq_value)
      with other(2) none show False by simp
    qed
  qed
  then show "(case e of (k, stmt) \<Rightarrow> k \<notin> fst ` set (findKeysToRemove lines sm)) =
      (case e of (k, stmt) \<Rightarrow> classify lines stmt = None)"
    by (simp add: e)
qed

lemma normalizeFileCoverage_Text:
  assumes "fs filePath = Text src"
  shows "normalizeFileCoverage fs filePath fileData =
     (fileData\<lparr>statementMap :=
         filter (\<lambda>(k, stmt). k \<notin> fst ` set (findKeysToRemove (splitLines src) (statementMap fileData)))
           (statementMap fileData),
        cov_s := cov_s fileData |` (- fst ` set (findKeysToRemove (splitLines src) (statementMap fileData)))\<rparr>,
      \<lparr>importsRemoved =
         length (filter (\<lambda>(k, stmt). classify (splitLines src) stmt = Some Import) (statementMap fileData)),
       directivesRemoved =
         length (filter (\<lambda>(k, stmt). classify (splitLines src) stmt = Some Directive) (statementMap fileData))\<rparr>)"
proof -
  have "normalizeFileCoverage fs filePath fileData =
      foldl removeKey (fileData, noRemovals) (findKeysToRemove (splitLines src) (statementMap fileData))"
    using assms splitLines_nonempty [of src] by (simp add: normalizeFileCoverage_def Let_def)
  then show ?thesis
    unfolding removeKey_fold imports_findKeysToRemove directives_findKeysToRemove
    by (simp add: noRemovals_def)
qed

lemma normalizeFileCoverage_skip:
  assumes "fs filePath = Missing \<or> fs filePath = Unreadable"
  shows "normalizeFileCoverage fs filePath fileData = (fileData, noRemovals)"
  using assms by (auto simp: normalizeFileCoverage_def)


lemma trim_parts:
  "\<exists>pre post. str = pre @ trim str @ post \<and> (\<forall>c\<in>set pre. isSpace c) \<and> (\<forall>c\<in>set post. isSpace c)"
proof -
  let ?mid = "dropWhile isSpace str"
  let ?pre = "takeWhile isSpace str"
  let ?post = "rev (takeWhile isSpace (rev ?mid))"
  have "trim str @ ?post =
      rev (takeWhile isSpace (rev ?mid) @ dropWhile isSpace (rev ?mid))"
    unfolding trim_def by (simp only: rev_append)
  also have "\<dots> = rev (rev ?mid)" by (simp only: takeWhile_dropWhile_id)
  finally have mid: "?mid = trim str @ ?post" by simp
  have "str = ?pre @ ?mid" by simp
  with mid have "str = ?pre @ trim str @ ?post" by simp
  moreover have "\<forall>c\<in>set ?pre. isSpace c" by (auto dest: set_takeWhileD)
  moreover have "\<forall>c\<in>set ?post. isSpace c" by (auto dest: set_takeWhileD)
  ultimately show ?thesis by blast
qed

lemma last_dropWhile_keep: "dropWhile P xs \<noteq> [] \<Longrightarrow> last (dropWhile P xs) = last xs"
proof -
  assume ne: "dropWhile P xs \<noteq> []"
  have "xs = takeWhile P xs @ dropWhile P xs" by simp
  then have "last xs = last (takeWhile P xs @ dropWhile P xs)" by simp
  also have "\<dots> = last (dropWhile P xs)" using ne by (rule last_appendR)
  finally show ?thesis by simp
qed

lemma trim_ends:
  assumes "trim str \<noteq> []"
  shows "\<not> isSpace (hd (trim str)) \<and> \<not> isSpace (last (trim str))"
proof -
  let ?mid = "dropWhile isSpace str"
  let ?r = "dropWhile isSpace (rev ?mid)"
  from assms have r: "?r \<noteq> []" by (simp add: trim_def)
  then have "rev ?mid \<noteq> []" by (metis dropWhile.simps(1))
  then have mid: "?mid \<noteq> []" by simp
  have "last (trim str) = hd ?r" using r by (simp add: trim_def last_rev)
  moreover have "\<not> isSpace (hd ?r)" using r by (rule hd_dropWhile)
  moreover have "hd (trim str) = last ?r" using r by (simp add: trim_def hd_rev)
  moreover have "last ?r = last (rev ?mid)" using r by (rule last_dropWhile_keep)
  moreover have "last (rev ?mid) = hd ?mid" using mid by (simp add: last_rev)
  moreover have "\<not> isSpace (hd ?mid)" using mid by (rule hd_dropWhile)
  ultimately show ?thesis by simp
qed

lemma startsWith_iff: "startsWith str pre \<longleftrightarrow> (\<exists>rest. str = pre @ rest)"
proof
  assume "startsWith str pre"
  then have "str = pre @ drop (length pre) str"
    by (metis append_take_drop_id startsWith_def)
  then show "\<exists>rest. str = pre @ rest" ..
next
  assume "\<exists>rest. str = pre @ rest"
  then show "startsWith str pre" by (auto simp: startsWith_def)
qed

lemma splitLines_join:
  "concat (map (\<lambda>l. l @ [0x0A]) (splitLines src)) = src @ [0x0A] \<and>
   (\<forall>l\<in>set (splitLines src). 0x0A \<notin> set l)"
proof (induction src)
  case Nil
  show ?case by simp
next
  case (Cons c src)
  obtain l ls where sp: "splitLines src = l # ls"
    using splitLines_nonempty [of src] by (cases "splitLines src") auto
  show ?case
    using Cons by (cases "c = 0x0A") (simp_all add: sp)
qed

lemma space_ranges:
  "{9..13::nat} = {9, 10, 11, 12, 13}"
  "{8192..8202::nat} = {8192, 8193, 8194, 8195, 8196, 8197, 8198, 8199, 8200, 8201, 8202}"
  by (auto, arith)

lemma isSpace_iff:
  "isSpace c \<longleftrightarrow>
     c \<in> {9..13} \<union> {32, 160, 5760} \<union> {8192..8202} \<union> {8232, 8233, 8239, 8287, 12288, 65279}"
  unfolding isSpace_def space_ranges by auto

lemma lineContent_raw:
  "lineContent lines n = (if 1 \<le> n \<and> n \<le> length lines then trim (lines ! (n - 1)) else [])"
  by (cases n) (simp_all add: lineContent_def)

lemma directive_not_import:
  "isDirective c \<Longrightarrow> \<not> startsWith c (lit ''import '') \<and> \<not> startsWith c (lit ''import{'')"
  by (auto simp: isDirective_def startsWith_def quoted_def lit_def)

lemma classify_Import:
  "(classify lines stmt = Some Import) =
     (startsWith (lineContent lines (line (start stmt))) (lit ''import '') \<or>
      startsWith (lineContent lines (line (start stmt))) (lit ''import{''))"
  by (simp add: classify_def Let_def)

lemma classify_Directive:
  "(classify lines stmt = Some Directive) = isDirective (lineContent lines (line (start stmt)))"
  using directive_not_import [of "lineContent lines (line (start stmt))"]
  by (auto simp: classify_def Let_def)

lemma classify_partition:
  "length sm =
     length (filter (\<lambda>(k, stmt). classify lines stmt = None) sm) +
     length (filter (\<lambda>(k, stmt). classify lines stmt = Some Import) sm) +
     length (filter (\<lambda>(k, stmt). classify lines stmt = Some Directive) sm)"
proof (induction sm)
  case Nil
  show ?case by simp
next
  case (Cons e sm)
  obtain k stmt where e: "e = (k, stmt)" by (cases e)
  show ?case
  proof (cases "classify lines stmt")
    case None
    then show ?thesis unfolding e using Cons by simp
  next
    case (Some t)
    then show ?thesis unfolding e using Cons by (cases t) simp_all
  qed
qed

lemma kept_keys:
  "- fst ` set (findKeysToRemove lines sm) =
     {k. \<forall>stmt. (k, stmt) \<in> set sm \<longrightarrow> classify lines stmt = None}"
  unfolding keys_findKeysToRemove by auto

lemma scenario_counts:
  assumes d: "isDirective (lineContent lines 1)"
    and i: "startsWith (lineContent lines 2) (lit ''import '') \<or> startsWith (lineContent lines 2) (lit ''import{'')"
    and one: "length (filter (\<lambda>(k, stmt). line (start stmt) = 1) sm) = 1"
    and two: "length (filter (\<lambda>(k, stmt). line (start stmt) = 2) sm) = 1"
    and rest: "\<forall>(k, stmt)\<in>set sm. line (start stmt) \<noteq> 1 \<and> line (start stmt) \<noteq> 2 \<longrightarrow>
                 classify lines stmt = None"
  shows "length (filter (\<lambda>(k, stmt). classify lines stmt = Some Import) sm) = 1 \<and>
         length (filter (\<lambda>(k, stmt). classify lines stmt = Some Directive) sm) = 1"
proof -
  have imp: "filter (\<lambda>(k, stmt). classify lines stmt = Some Import) sm =
        filter (\<lambda>(k, stmt). line (start stmt) = 2) sm"
  proof (rule filter_cong [OF refl])
    fix e assume mem: "e \<in> set sm"
    obtain k stmt where e: "e = (k, stmt)" by (cases e)
    have "(classify lines stmt = Some Import) = (line (start stmt) = 2)"
    proof (cases "line (start stmt) = 2")
      case True
      with i show ?thesis by (simp add: classify_Import)
    next
      case False
      show ?thesis
      proof (cases "line (start stmt) = 1")
        case True
        with d have "classify lines stmt = Some Directive" by (simp add: classify_Directive)
        with False show ?thesis by simp
      next
        case notone: False
        with False rest mem e have "classify lines stmt = None" by auto
        with False show ?thesis by simp
      qed
    qed
    then show "(case e of (k, stmt) \<Rightarrow> classify lines stmt = Some Import) =
        (case e of (k, stmt) \<Rightarrow> line (start stmt) = 2)"
      by (simp add: e)
  qed
  have dir: "filter (\<lambda>(k, stmt). classify lines stmt = Some Directive) sm =
        filter (\<lambda>(k, stmt). line (start stmt) = 1) sm"
  proof (rule filter_cong [OF refl])
    fix e assume mem: "e \<in> set sm"
    obtain k stmt where e: "e = (k, stmt)" by (cases e)
    have "(classify lines stmt = Some Directive) = (line (start stmt) = 1)"
    proof (cases "line (start stmt) = 1")
      case True
      with d show ?thesis by (simp add: classify_Directive)
    next
      case False
      show ?thesis
      proof (cases "line (start stmt) = 2")
        case True
        with i have "classify lines stmt = Some Import" by (simp add: classify_Import)
        with False show ?thesis by simp
      next
        case nottwo: False
        with False rest mem e have "classify lines stmt = None" by auto
        with False show ?thesis by simp
      qed
    qed
    then show "(case e of (k, stmt) \<Rightarrow> classify lines stmt = Some Directive) =
        (case e of (k, stmt) \<Rightarrow> line (start stmt) = 1)"
      by (simp add: e)
  qed
  show ?thesis unfolding imp dir using one two by simp
qed


text \<open>
  Claim C6, amended. For a record whose source text is readable and whose statement ids are
  distinct, normalization keeps exactly the statement entries that are not classified and
  removes the classified ids from the counts. An entry is classified by the source line at
  its 1-indexed start line, with the white space of both ends removed: as an import when
  that text begins with \<open>import\<close> followed by a space or by an opening brace, and as a
  directive when it is one of the eight directive literals. \<open>importsRemoved\<close> and
  \<open>directivesRemoved\<close> count the two classes, and the totals of a map are the sums over
  its records. When line 1 is a directive, line 2 is an import, one entry starts on each of
  these lines and no entry on another line is classified, two entries are removed, with
  \<open>directivesRemoved = 1\<close> and \<open>importsRemoved = 1\<close>.
\<close>

theorem normalizeCoverage_removes_classified:
  assumes "fs filePath = Text src" and "distinct (map fst (statementMap fileData))"
  shows
    "normalizeFileCoverage fs filePath fileData =
       (fileData\<lparr>statementMap :=
           filter (\<lambda>(k, stmt). classify (splitLines src) stmt = None) (statementMap fileData),
          cov_s := cov_s fileData |`
            {k. \<forall>stmt. (k, stmt) \<in> set (statementMap fileData) \<longrightarrow>
                   classify (splitLines src) stmt = None}\<rparr>,
        \<lparr>importsRemoved =
           length (filter (\<lambda>(k, stmt). classify (splitLines src) stmt = Some Import)
                     (statementMap fileData)),
         directivesRemoved =
           length (filter (\<lambda>(k, stmt). classify (splitLines src) stmt = Some Directive)
                     (statementMap fileData))\<rparr>) \<and>
     (\<forall>stmt. (classify (splitLines src) stmt = Some Import) =
        (startsWith (lineContent (splitLines src) (line (start stmt))) (lit ''import '') \<or>
         startsWith (lineContent (splitLines src) (line (start stmt))) (lit ''import{''))) \<and>
     (\<forall>stmt. (classify (splitLines src) stmt = Some Directive) =
        (lineContent (splitLines src) (line (start stmt)) \<in>
           set [quoted 0x27 ''use server'', quoted 0x22 ''use server'',
                quoted 0x27 ''use server'' @ lit '';'', quoted 0x22 ''use server'' @ lit '';'',
                quoted 0x27 ''use client'', quoted 0x22 ''use client'',
                quoted 0x27 ''use client'' @ lit '';'', quoted 0x22 ''use client'' @ lit '';''])) \<and>
     (\<forall>n. lineContent (splitLines src) n =
        (if 1 \<le> n \<and> n \<le> length (splitLines src) then trim (splitLines src ! (n - 1)) else [])) \<and>
     concat (map (\<lambda>l. l @ [0x0A]) (splitLines src)) = src @ [0x0A] \<and>
     (\<forall>l\<in>set (splitLines src). 0x0A \<notin> set l) \<and>
     (\<forall>str. (\<exists>pre post. str = pre @ trim str @ post \<and>
                 (\<forall>c\<in>set pre. isSpace c) \<and> (\<forall>c\<in>set post. isSpace c)) \<and>
            (trim str \<noteq> [] \<longrightarrow> \<not> isSpace (hd (trim str)) \<and> \<not> isSpace (last (trim str)))) \<and>
     (\<forall>c. isSpace c =
        (c \<in> {9..13} \<union> {32, 160, 5760} \<union> {8192..8202} \<union>
             {8232, 8233, 8239, 8287, 12288, 65279})) \<and>
     (\<forall>str pre. startsWith str pre = (\<exists>rest. str = pre @ rest)) \<and>
     (\<forall>q str. quoted q str = q # map of_char str @ [q]) \<and>
     (\<forall>str. lit str = map of_char str) \<and>
     (\<forall>cm. normalizeCoverage fs cm =
        \<lparr>importsRemoved =
           sum_list (map (\<lambda>(p, d). importsRemoved (snd (normalizeFileCoverage fs p d))) cm),
         directivesRemoved =
           sum_list (map (\<lambda>(p, d). directivesRemoved (snd (normalizeFileCoverage fs p d))) cm),
         coverageMap = map (\<lambda>(p, d). (p, fst (normalizeFileCoverage fs p d))) cm\<rparr>) \<and>
     (isDirective (lineContent (splitLines src) 1) \<and>
      (startsWith (lineContent (splitLines src) 2) (lit ''import '') \<or>
       startsWith (lineContent (splitLines src) 2) (lit ''import{'')) \<and>
      length (filter (\<lambda>(k, stmt). line (start stmt) = 1) (statementMap fileData)) = 1 \<and>
      length (filter (\<lambda>(k, stmt). line (start stmt) = 2) (statementMap fileData)) = 1 \<and>
      (\<forall>(k, stmt)\<in>set (statementMap fileData).
         line (start stmt) \<noteq> 1 \<and> line (start stmt) \<noteq> 2 \<longrightarrow>
           classify (splitLines src) stmt = None) \<longrightarrow>
        importsRemoved (snd (normalizeFileCoverage fs filePath fileData)) = 1 \<and>
        directivesRemoved (snd (normalizeFileCoverage fs filePath fileData)) = 1 \<and>
        length (statementMap (fst (normalizeFileCoverage fs filePath fileData))) + 2 =
          length (statementMap fileData))"
proof -
  let ?lines = "splitLines src"
  let ?sm = "statementMap fileData"
  have main: "normalizeFileCoverage fs filePath fileData =
       (fileData\<lparr>statementMap := filter (\<lambda>(k, stmt). classify ?lines stmt = None) ?sm,
          cov_s := cov_s fileData |`
            {k. \<forall>stmt. (k, stmt) \<in> set ?sm \<longrightarrow> classify ?lines stmt = None}\<rparr>,
        \<lparr>importsRemoved = length (filter (\<lambda>(k, stmt). classify ?lines stmt = Some Import) ?sm),
         directivesRemoved = length (filter (\<lambda>(k, stmt). classify ?lines stmt = Some Directive) ?sm)\<rparr>)"
    unfolding normalizeFileCoverage_Text [of fs filePath src fileData, OF assms(1)]
      kept_distinct [of "statementMap fileData" "splitLines src", OF assms(2)] kept_keys ..
  have dir: "\<forall>stmt. (classify ?lines stmt = Some Directive) =
        (lineContent ?lines (line (start stmt)) \<in>
           set [quoted 0x27 ''use server'', quoted 0x22 ''use server'',
                quoted 0x27 ''use server'' @ lit '';'', quoted 0x22 ''use server'' @ lit '';'',
                quoted 0x27 ''use client'', quoted 0x22 ''use client'',
                quoted 0x27 ''use client'' @ lit '';'', quoted 0x22 ''use client'' @ lit '';''])"
    unfolding classify_Directive isDirective_def by simp
  have scenario: "isDirective (lineContent ?lines 1) \<and>
      (startsWith (lineContent ?lines 2) (lit ''import '') \<or> startsWith (lineContent ?lines 2) (lit ''import{'')) \<and>
      length (filter (\<lambda>(k, stmt). line (start stmt) = 1) ?sm) = 1 \<and>
      length (filter (\<lambda>(k, stmt). line (start stmt) = 2) ?sm) = 1 \<and>
      (\<forall>(k, stmt)\<in>set ?sm. line (start stmt) \<noteq> 1 \<and> line (start stmt) \<noteq> 2 \<longrightarrow>
           classify ?lines stmt = None) \<longrightarrow>
        importsRemoved (snd (normalizeFileCoverage fs filePath fileData)) = 1 \<and>
        directivesRemoved (snd (normalizeFileCoverage fs filePath fileData)) = 1 \<and>
        length (statementMap (fst (normalizeFileCoverage fs filePath fileData))) + 2 = length ?sm"
  proof
    assume h: "isDirective (lineContent ?lines 1) \<and>
      (startsWith (lineContent ?lines 2) (lit ''import '') \<or> startsWith (lineContent ?lines 2) (lit ''import{'')) \<and>
      length (filter (\<lambda>(k, stmt). line (start stmt) = 1) ?sm) = 1 \<and>
      length (filter (\<lambda>(k, stmt). line (start stmt) = 2) ?sm) = 1 \<and>
      (\<forall>(k, stmt)\<in>set ?sm. line (start stmt) \<noteq> 1 \<and> line (start stmt) \<noteq> 2 \<longrightarrow>
           classify ?lines stmt = None)"
    then have counts: "length (filter (\<lambda>(k, stmt). classify ?lines stmt = Some Import) ?sm) = 1 \<and>
         length (filter (\<lambda>(k, stmt). classify ?lines stmt = Some Directive) ?sm) = 1"
      by (intro scenario_counts) simp_all
    with classify_partition [of ?sm ?lines]
    have "length (filter (\<lambda>(k, stmt). classify ?lines stmt = None) ?sm) + 2 = length ?sm"
      by simp
    with counts show "importsRemoved (snd (normalizeFileCoverage fs filePath fileData)) = 1 \<and>
        directivesRemoved (snd (normalizeFileCoverage fs filePath fileData)) = 1 \<and>
        length (statementMap (fst (normalizeFileCoverage fs filePath fileData))) + 2 = length ?sm"
      unfolding main by simp
  qed
  have trimmed: "\<forall>str. (\<exists>pre post. str = pre @ trim str @ post \<and>
                 (\<forall>c\<in>set pre. isSpace c) \<and> (\<forall>c\<in>set post. isSpace c)) \<and>
            (trim str \<noteq> [] \<longrightarrow> \<not> isSpace (hd (trim str)) \<and> \<not> isSpace (last (trim str)))"
    using trim_parts trim_ends by blast
  have literals: "(\<forall>q str. quoted q str = q # map of_char str @ [q]) \<and>
      (\<forall>str. lit str = map of_char str)"
    by (simp add: quoted_def lit_def)
  show ?thesis
    using main classify_Import dir normalizeCoverage_eq scenario lineContent_raw
      splitLines_join [of src] trimmed isSpace_iff startsWith_iff literals
    apply (intro conjI)
    apply blast+
    done
qed


lemma client_facts:
  "clientFs ''/path/to/file.ts'' = Text clientSource"
  "clientFs ''/path/to/nonexistent.ts'' = Missing"
  "distinct (map fst (statementMap clientCov))"
  "statementMap clientCov =
     [(''0'', mkLoc 1 (Some 0)), (''1'', mkLoc 2 (Some 0)), (''2'', mkLoc 3 (Some 0))]"
  "cov_s clientCov ''2'' = Some 1"
  by (simp_all add: clientFs_def clientCov_def stmtsOnly_def)

lemma client_split:
  "splitLines clientSource =
     [0xFEFF # quoted 0x27 ''use client'' @ [0x0D],
      [0x20, 0x20, 0x09] @ lit ''import React from '' @ quoted 0x27 ''react'' @ [0xA0, 0x0D],
      lit ''const x = 1'']"
  by (simp add: clientSource_def quoted_def lit_def)

lemma client_contents:
  "lineContent (splitLines clientSource) 1 = quoted 0x27 ''use client''"
  "lineContent (splitLines clientSource) 2 = lit ''import React from '' @ quoted 0x27 ''react''"
  "lineContent (splitLines clientSource) 3 = lit ''const x = 1''"
  by (simp_all add: client_split lineContent_def trim_def isSpace_def quoted_def lit_def)

lemma client_lines:
  "isDirective (lineContent (splitLines clientSource) 1)"
  "startsWith (lineContent (splitLines clientSource) 2) (lit ''import '')"
  "classify (splitLines clientSource) (mkLoc 1 (Some 0)) = Some Directive"
  "classify (splitLines clientSource) (mkLoc 2 (Some 0)) = Some Import"
  "classify (splitLines clientSource) (mkLoc 3 (Some 0)) = None"
  by (simp_all add: classify_def mkLoc_def client_contents isDirective_def startsWith_def
        quoted_def lit_def del: One_nat_def)

theorem normalizeCoverage_removes_classified_witness:
  "clientFs ''/path/to/file.ts'' = Text clientSource \<and>
   distinct (map fst (statementMap clientCov)) \<and>
   statementMap (fst (normalizeFileCoverage clientFs ''/path/to/file.ts'' clientCov)) =
     [(''2'', mkLoc 3 (Some 0))] \<and>
   cov_s (fst (normalizeFileCoverage clientFs ''/path/to/file.ts'' clientCov)) ''0'' = None \<and>
   cov_s (fst (normalizeFileCoverage clientFs ''/path/to/file.ts'' clientCov)) ''2'' = Some 1 \<and>
   importsRemoved (snd (normalizeFileCoverage clientFs ''/path/to/file.ts'' clientCov)) = 1 \<and>
   directivesRemoved (snd (normalizeFileCoverage clientFs ''/path/to/file.ts'' clientCov)) = 1"
proof -
  note spec = normalizeCoverage_removes_classified
    [of clientFs "''/path/to/file.ts''" clientSource clientCov, OF client_facts(1) client_facts(3)]
  let ?lines = "splitLines clientSource"
  have kept: "filter (\<lambda>(k, stmt). classify ?lines stmt = None) (statementMap clientCov) =
      [(''2'', mkLoc 3 (Some 0))]"
    unfolding client_facts(4) by (simp add: client_lines del: One_nat_def)
  have k0: "''0'' \<notin> {k. \<forall>stmt. (k, stmt) \<in> set (statementMap clientCov) \<longrightarrow> classify ?lines stmt = None}"
    unfolding client_facts(4) using client_lines(3) by (auto simp del: One_nat_def)
  have k2: "''2'' \<in> {k. \<forall>stmt. (k, stmt) \<in> set (statementMap clientCov) \<longrightarrow> classify ?lines stmt = None}"
    unfolding client_facts(4) using client_lines(5) by (auto simp del: One_nat_def)
  from spec have eq: "normalizeFileCoverage clientFs ''/path/to/file.ts'' clientCov =
       (clientCov\<lparr>statementMap := filter (\<lambda>(k, stmt). classify ?lines stmt = None) (statementMap clientCov),
          cov_s := cov_s clientCov |`
            {k. \<forall>stmt. (k, stmt) \<in> set (statementMap clientCov) \<longrightarrow> classify ?lines stmt = None}\<rparr>,
        \<lparr>importsRemoved = length (filter (\<lambda>(k, stmt). classify ?lines stmt = Some Import) (statementMap clientCov)),
         directivesRemoved = length (filter (\<lambda>(k, stmt). classify ?lines stmt = Some Directive) (statementMap clientCov))\<rparr>)"
    by blast
  have one: "length (filter (\<lambda>(k, stmt). line (start stmt) = 1) (statementMap clientCov)) = 1"
    and two: "length (filter (\<lambda>(k, stmt). line (start stmt) = 2) (statementMap clientCov)) = 1"
    and rest: "\<forall>(k, stmt)\<in>set (statementMap clientCov).
         line (start stmt) \<noteq> 1 \<and> line (start stmt) \<noteq> 2 \<longrightarrow> classify ?lines stmt = None"
    unfolding client_facts(4) using client_lines(5) by (simp_all add: mkLoc_def)
  from spec client_lines(1,2) one two rest
  have counts: "importsRemoved (snd (normalizeFileCoverage clientFs ''/path/to/file.ts'' clientCov)) = 1 \<and>
        directivesRemoved (snd (normalizeFileCoverage clientFs ''/path/to/file.ts'' clientCov)) = 1"
    by blast
  have sm: "statementMap (fst (normalizeFileCoverage clientFs ''/path/to/file.ts'' clientCov)) =
     [(''2'', mkLoc 3 (Some 0))]"
    unfolding eq using kept by simp
  have c0: "cov_s (fst (normalizeFileCoverage clientFs ''/path/to/file.ts'' clientCov)) ''0'' = None"
    unfolding eq fst_conv using restrict_out [OF k0, of "cov_s clientCov"] by simp
  have c2: "cov_s (fst (normalizeFileCoverage clientFs ''/path/to/file.ts'' clientCov)) ''2'' = Some 1"
    unfolding eq fst_conv using restrict_in [OF k2, of "cov_s clientCov"] client_facts(5) by simp
  from client_facts(1,3) sm c0 c2 counts show ?thesis by blast
qed


lemma twoImports_split:
  "splitLines twoImportsSource =
     [quoted 0x27 ''use client'', lit ''import React from '' @ quoted 0x27 ''react'',
      lit ''import { useState } from '' @ quoted 0x27 ''react'']"
  by (simp add: twoImportsSource_def quoted_def lit_def)

lemma twoImports_contents:
  "lineContent (splitLines twoImportsSource) 1 = quoted 0x27 ''use client''"
  "lineContent (splitLines twoImportsSource) 2 = lit ''import React from '' @ quoted 0x27 ''react''"
  "lineContent (splitLines twoImportsSource) 3 = lit ''import { useState } from '' @ quoted 0x27 ''react''"
  by (simp_all add: twoImports_split lineContent_def trim_def isSpace_def quoted_def lit_def)

lemma twoImports_lines:
  "startsWith (lineContent (splitLines twoImportsSource) 2) (lit ''import '')"
  "classify (splitLines twoImportsSource) (mkLoc 1 (Some 0)) = Some Directive"
  "classify (splitLines twoImportsSource) (mkLoc 2 (Some 0)) = Some Import"
  "classify (splitLines twoImportsSource) (mkLoc 3 (Some 0)) = Some Import"
  by (simp_all add: classify_def mkLoc_def twoImports_contents isDirective_def startsWith_def
        quoted_def lit_def del: One_nat_def)

text \<open>
  The scenario of claim C6 as it is stated, without the condition on the other entries, fails:
  a file with a \<open>use client\<close> line, an import on line 2 and a second import on line 3,
  with one statement entry on each line, loses three entries, with \<open>importsRemoved = 2\<close>.
\<close>

theorem normalizeCoverage_scenario_counterexample:
  "twoImportsFs ''/path/to/file.ts'' = Text twoImportsSource \<and>
   lineContent (splitLines twoImportsSource) 1 = quoted 0x27 ''use client'' \<and>
   startsWith (lineContent (splitLines twoImportsSource) 2) (lit ''import '') \<and>
   statementMap clientCov =
     [(''0'', mkLoc 1 (Some 0)), (''1'', mkLoc 2 (Some 0)), (''2'', mkLoc 3 (Some 0))] \<and>
   statementMap (fst (normalizeFileCoverage twoImportsFs ''/path/to/file.ts'' clientCov)) = [] \<and>
   importsRemoved (snd (normalizeFileCoverage twoImportsFs ''/path/to/file.ts'' clientCov)) = 2 \<and>
   directivesRemoved (snd (normalizeFileCoverage twoImportsFs ''/path/to/file.ts'' clientCov)) = 1 \<and>
   \<not> (length (statementMap clientCov) -
        length (statementMap (fst (normalizeFileCoverage twoImportsFs ''/path/to/file.ts'' clientCov))) = 2 \<and>
      directivesRemoved (snd (normalizeFileCoverage twoImportsFs ''/path/to/file.ts'' clientCov)) = 1 \<and>
      importsRemoved (snd (normalizeFileCoverage twoImportsFs ''/path/to/file.ts'' clientCov)) = 1)"
proof -
  have fs: "twoImportsFs ''/path/to/file.ts'' = Text twoImportsSource"
    by (simp add: twoImportsFs_def)
  have keys: "fst ` set (findKeysToRemove (splitLines twoImportsSource) (statementMap clientCov)) =
      {''0'', ''1'', ''2''}"
    unfolding keys_findKeysToRemove client_facts(4)
    using twoImports_lines(2,3,4) by (auto simp del: One_nat_def)
  have res: "normalizeFileCoverage twoImportsFs ''/path/to/file.ts'' clientCov =
      (clientCov\<lparr>statementMap := [], cov_s := cov_s clientCov |` (- {''0'', ''1'', ''2''})\<rparr>,
       \<lparr>importsRemoved = 2, directivesRemoved = 1\<rparr>)"
    unfolding normalizeFileCoverage_Text [of twoImportsFs "''/path/to/file.ts''" twoImportsSource clientCov,
        OF fs] keys
    unfolding client_facts(4)
    by (simp add: twoImports_lines del: One_nat_def)
  show ?thesis
    unfolding res using fs twoImports_contents(1) twoImports_lines(1) client_facts(4) by simp
qed

lemma sum_list_skip:
  "(\<forall>x\<in>set xs. \<not> P x \<longrightarrow> h x = (0::nat)) \<Longrightarrow>
     sum_list (map h xs) = sum_list (map h (filter P xs))"
  by (induction xs) auto

lemma normalizeFileCoverage_again:
  "normalizeFileCoverage fs p (fst (normalizeFileCoverage fs p d)) =
     (fst (normalizeFileCoverage fs p d), noRemovals)"
proof (cases "fs p")
  case Missing
  then show ?thesis by (simp add: normalizeFileCoverage_skip)
next
  case Unreadable
  then show ?thesis by (simp add: normalizeFileCoverage_skip)
next
  case (Text src)
  let ?keys = "fst ` set (findKeysToRemove (splitLines src) (statementMap d))"
  let ?d' = "fst (normalizeFileCoverage fs p d)"
  have sm: "statementMap ?d' = filter (\<lambda>(k, stmt). k \<notin> ?keys) (statementMap d)"
    by (simp add: normalizeFileCoverage_Text [of fs p src d, OF Text])
  have "\<forall>(k, stmt)\<in>set (statementMap ?d'). classify (splitLines src) stmt = None"
    unfolding sm by (auto dest: kept_unclassified)
  then have none: "findKeysToRemove (splitLines src) (statementMap ?d') = []"
    by (rule findKeysToRemove_none)
  show ?thesis
    using Text splitLines_nonempty [of src]
    by (simp add: normalizeFileCoverage_def [of fs p ?d'] Let_def none)
qed

text \<open>
  Claim C8. For a record whose file does not exist or whose source text cannot be read,
  normalization returns the record as it is with zero removals; in the normalized map the
  entry of such a path is the input entry, the totals are the sums over the other paths, and
  the map keeps its length: the failure is a value of the model, not an error of the result.
\<close>

theorem normalizeCoverage_unreadable_unchanged:
  assumes "fs filePath = Missing \<or> fs filePath = Unreadable"
  shows "normalizeFileCoverage fs filePath fileData =
           (fileData, \<lparr>importsRemoved = 0, directivesRemoved = 0\<rparr>) \<and>
         (\<forall>cm i. i < length cm \<and> fst (cm ! i) = filePath \<longrightarrow>
            coverageMap (normalizeCoverage fs cm) ! i = cm ! i) \<and>
         (\<forall>cm. length (coverageMap (normalizeCoverage fs cm)) = length cm \<and>
            importsRemoved (normalizeCoverage fs cm) =
              sum_list (map (\<lambda>(p, d). importsRemoved (snd (normalizeFileCoverage fs p d)))
                          (filter (\<lambda>(p, d). p \<noteq> filePath) cm)) \<and>
            directivesRemoved (normalizeCoverage fs cm) =
              sum_list (map (\<lambda>(p, d). directivesRemoved (snd (normalizeFileCoverage fs p d)))
                          (filter (\<lambda>(p, d). p \<noteq> filePath) cm)))"
proof (intro conjI allI impI)
  show "normalizeFileCoverage fs filePath fileData =
           (fileData, \<lparr>importsRemoved = 0, directivesRemoved = 0\<rparr>)"
    using normalizeFileCoverage_skip [of fs filePath, OF assms] by (simp add: noRemovals_def)
next
  fix cm :: CoverageMapData and i
  assume a: "i < length cm \<and> fst (cm ! i) = filePath"
  obtain p d where pd: "cm ! i = (p, d)" by (cases "cm ! i")
  with a have p: "p = filePath" by simp
  show "coverageMap (normalizeCoverage fs cm) ! i = cm ! i"
    using a by (simp add: normalizeCoverage_eq pd p normalizeFileCoverage_skip [of fs filePath, OF assms])
next
  fix cm :: CoverageMapData
  show "length (coverageMap (normalizeCoverage fs cm)) = length cm"
    by (simp add: normalizeCoverage_eq)
next
  fix cm :: CoverageMapData
  have "\<forall>x\<in>set cm. \<not> (case x of (p, d) \<Rightarrow> p \<noteq> filePath) \<longrightarrow>
          (case x of (p, d) \<Rightarrow> importsRemoved (snd (normalizeFileCoverage fs p d))) = 0"
    by (auto simp: normalizeFileCoverage_skip [of fs filePath, OF assms] noRemovals_def)
  from sum_list_skip [OF this] show "importsRemoved (normalizeCoverage fs cm) =
              sum_list (map (\<lambda>(p, d). importsRemoved (snd (normalizeFileCoverage fs p d)))
                          (filter (\<lambda>(p, d). p \<noteq> filePath) cm))"
    by (simp add: normalizeCoverage_eq)
next
  fix cm :: CoverageMapData
  have "\<forall>x\<in>set cm. \<not> (case x of (p, d) \<Rightarrow> p \<noteq> filePath) \<longrightarrow>
          (case x of (p, d) \<Rightarrow> directivesRemoved (snd (normalizeFileCoverage fs p d))) = 0"
    by (auto simp: normalizeFileCoverage_skip [of fs filePath, OF assms] noRemovals_def)
  from sum_list_skip [OF this] show "directivesRemoved (normalizeCoverage fs cm) =
              sum_list (map (\<lambda>(p, d). directivesRemoved (snd (normalizeFileCoverage fs p d)))
                          (filter (\<lambda>(p, d). p \<noteq> filePath) cm))"
    by (simp add: normalizeCoverage_eq)
qed

theorem normalizeCoverage_unreadable_unchanged_witness:
  "(clientFs ''/path/to/nonexistent.ts'' = Missing \<or>
    clientFs ''/path/to/nonexistent.ts'' = Unreadable) \<and>
   1 < length clientMap \<and> fst (clientMap ! 1) = ''/path/to/nonexistent.ts'' \<and>
   coverageMap (normalizeCoverage clientFs clientMap) ! 1 =
     (''/path/to/nonexistent.ts'', unitDirective\<lparr>path := ''/path/to/nonexistent.ts''\<rparr>) \<and>
   normalizeFileCoverage clientFs ''/path/to/nonexistent.ts''
       (unitDirective\<lparr>path := ''/path/to/nonexistent.ts''\<rparr>) =
     (unitDirective\<lparr>path := ''/path/to/nonexistent.ts''\<rparr>,
      \<lparr>importsRemoved = 0, directivesRemoved = 0\<rparr>)"
proof -
  have h: "clientFs ''/path/to/nonexistent.ts'' = Missing \<or>
    clientFs ''/path/to/nonexistent.ts'' = Unreadable"
    by (simp add: client_facts(2))
  have i: "1 < length clientMap \<and> fst (clientMap ! 1) = ''/path/to/nonexistent.ts''"
    by (simp add: clientMap_def)
  have e: "clientMap ! 1 =
      (''/path/to/nonexistent.ts'', unitDirective\<lparr>path := ''/path/to/nonexistent.ts''\<rparr>)"
    by (simp add: clientMap_def)
  note spec = normalizeCoverage_unreadable_unchanged
    [of clientFs "''/path/to/nonexistent.ts''" "unitDirective\<lparr>path := ''/path/to/nonexistent.ts''\<rparr>", OF h]
  from spec i have "coverageMap (normalizeCoverage clientFs clientMap) ! 1 = clientMap ! 1"
    by blast
  with spec h i e show ?thesis by simp
qed

text \<open>
  Claim C9. With the source texts fixed, normalizing an already normalized map removes
  nothing: the second pass reports \<open>importsRemoved = 0\<close> and \<open>directivesRemoved = 0\<close>
  and leaves the map as the first pass produced it, since the first pass deleted every
  classified entry.
\<close>

theorem normalizeCoverage_second_pass:
  "importsRemoved (normalizeCoverage fs (coverageMap (normalizeCoverage fs cm))) = 0 \<and>
   directivesRemoved (normalizeCoverage fs (coverageMap (normalizeCoverage fs cm))) = 0 \<and>
   coverageMap (normalizeCoverage fs (coverageMap (normalizeCoverage fs cm))) =
     coverageMap (normalizeCoverage fs cm)"
proof -
  let ?once = "map (\<lambda>(p, d). (p, fst (normalizeFileCoverage fs p d))) cm"
  have once: "coverageMap (normalizeCoverage fs cm) = ?once"
    by (simp add: normalizeCoverage_eq)
  have imp_sum: "sum_list (map (\<lambda>(p, d). importsRemoved (snd (normalizeFileCoverage fs p d))) ?once) = 0"
    by (induction cm) (auto simp: normalizeFileCoverage_again noRemovals_def)
  have dir_sum: "sum_list (map (\<lambda>(p, d). directivesRemoved (snd (normalizeFileCoverage fs p d))) ?once) = 0"
    by (induction cm) (auto simp: normalizeFileCoverage_again noRemovals_def)
  have same: "map (\<lambda>(p, d). (p, fst (normalizeFileCoverage fs p d))) ?once = ?once"
    by (induction cm) (auto simp: normalizeFileCoverage_again)
  show ?thesis unfolding once normalizeCoverage_eq [of fs ?once] imp_sum dir_sum same
    by simp
qed

lemma client_first_pass:
  "importsRemoved (normalizeCoverage clientFs clientMap) = 1"
  "directivesRemoved (normalizeCoverage clientFs clientMap) = 1"
proof -
  have skip: "normalizeFileCoverage clientFs ''/path/to/nonexistent.ts'' d = (d, noRemovals)" for d
    by (rule normalizeFileCoverage_skip) (simp add: client_facts(2))
  have counts: "snd (normalizeFileCoverage clientFs ''/path/to/file.ts'' clientCov) =
      \<lparr>importsRemoved = 1, directivesRemoved = 1\<rparr>"
    unfolding normalizeFileCoverage_Text [of clientFs "''/path/to/file.ts''" clientSource clientCov,
        OF client_facts(1)] client_facts(4)
    by (simp add: client_lines del: One_nat_def)
  show "importsRemoved (normalizeCoverage clientFs clientMap) = 1"
    "directivesRemoved (normalizeCoverage clientFs clientMap) = 1"
    by (simp_all add: normalizeCoverage_eq clientMap_def skip counts noRemovals_def)
qed

theorem normalizeCoverage_second_pass_witness:
  "importsRemoved (normalizeCoverage clientFs clientMap) = 1 \<and>
   directivesRemoved (normalizeCoverage clientFs clientMap) = 1 \<and>
   importsRemoved (normalizeCoverage clientFs (coverageMap (normalizeCoverage clientFs clientMap))) = 0 \<and>
   directivesRemoved (normalizeCoverage clientFs (coverageMap (normalizeCoverage clientFs clientMap))) = 0 \<and>
   coverageMap (normalizeCoverage clientFs (coverageMap (normalizeCoverage clientFs clientMap))) =
     coverageMap (normalizeCoverage clientFs clientMap)"
  using normalizeCoverage_second_pass [of clientFs clientMap] client_first_pass by blast

end
